theory Spec2Isabelle
  imports Complex_Main
begin

section \<open>Python values and dictionaries\<close>

text \<open>
  The verification pipeline of integrity-os (\<^verbatim>\<open>src/core/causal_graph.py\<close>,
  \<^verbatim>\<open>src/core/dissonance_detector.py\<close>, \<^verbatim>\<open>src/core/inhibition_controller.py\<close>) is
  embedded function by function. Python \<^verbatim>\<open>float\<close>s are read as real numbers (exact
  arithmetic), Python \<^verbatim>\<open>int\<close>s as \<^typ>\<open>int\<close>, \<^verbatim>\<open>str\<close> as \<^typ>\<open>string\<close> (UTF-8 bytes).
  A \<^verbatim>\<open>dict\<close> is an association list in insertion order: assigning to a key that is
  present keeps its position, a new key goes to the end.
\<close>

datatype py_error =
    KeyError string | IndexError | TypeError | AttributeError | NodeNotFound | NetworkXNoPath

datatype pyval =
    PNone
  | PBool bool
  | PInt int
  | PFloat real
  | PStr string
  | PList "pyval list"

type_synonym pydict = "(string \<times> pyval) list"

primrec dict_set :: "'k \<Rightarrow> 'v \<Rightarrow> ('k \<times> 'v) list \<Rightarrow> ('k \<times> 'v) list" where
  "dict_set k v [] = [(k, v)]"
| "dict_set k v (p # ps) = (if fst p = k then (k, v) # ps else p # dict_set k v ps)"

definition dict_has :: "('k \<times> 'v) list \<Rightarrow> 'k \<Rightarrow> bool" where
  "dict_has d k = (map_of d k \<noteq> None)"

text \<open>\<^verbatim>\<open>d.update(attr)\<close>: the keyword arguments are written in the order given.\<close>

definition dict_update :: "('k \<times> 'v) list \<Rightarrow> ('k \<times> 'v) list \<Rightarrow> ('k \<times> 'v) list" where
  "dict_update d attr = fold (\<lambda>(k, v). dict_set k v) attr d"

text \<open>Truth value of a Python object, as \<^verbatim>\<open>if x\<close> and \<^verbatim>\<open>not x\<close> read it.\<close>

fun truthy :: "pyval \<Rightarrow> bool" where
  "truthy PNone = False"
| "truthy (PBool b) = b"
| "truthy (PInt i) = (i \<noteq> 0)"
| "truthy (PFloat x) = (x \<noteq> 0)"
| "truthy (PStr s) = (s \<noteq> [])"
| "truthy (PList xs) = (xs \<noteq> [])"

section \<open>The attributed directed graph\<close>

text \<open>
  \<^verbatim>\<open>networkx.DiGraph\<close> as the source uses it: the node dictionary \<^verbatim>\<open>_node\<close>, the
  successor dictionary \<^verbatim>\<open>_succ\<close> (also \<^verbatim>\<open>_adj\<close>) and the predecessor dictionary
  \<^verbatim>\<open>_pred\<close>, each an insertion-ordered dictionary keyed by node id; the inner
  dictionaries map a neighbour to the attribute dictionary of the edge.
\<close>

type_synonym adjacency = "(string \<times> (string \<times> pydict) list) list"

record digraph =
  g_node :: "(string \<times> pydict) list"
  g_succ :: adjacency
  g_pred :: adjacency

definition empty_digraph :: digraph where
  "empty_digraph = \<lparr>g_node = [], g_succ = [], g_pred = []\<rparr>"

definition has_node :: "digraph \<Rightarrow> string \<Rightarrow> bool" where
  "has_node G n = dict_has (g_node G) n"

definition has_edge :: "digraph \<Rightarrow> string \<Rightarrow> string \<Rightarrow> bool" where
  "has_edge G u v = (case map_of (g_succ G) u of None \<Rightarrow> False | Some nb \<Rightarrow> dict_has nb v)"

definition get_edge_data :: "digraph \<Rightarrow> string \<Rightarrow> string \<Rightarrow> pydict option" where
  "get_edge_data G u v = (case map_of (g_succ G) u of None \<Rightarrow> None | Some nb \<Rightarrow> map_of nb v)"

text \<open>
  \<^verbatim>\<open>add_node(n, **attr)\<close>: a new node gets empty adjacency dictionaries and the given
  attributes; for a node already present the attributes are merged into its dictionary.
\<close>

definition add_node :: "string \<Rightarrow> pydict \<Rightarrow> digraph \<Rightarrow> digraph" where
  "add_node n attr G =
     (if \<not> dict_has (g_succ G) n then
        G\<lparr>g_succ := dict_set n [] (g_succ G),
          g_pred := dict_set n [] (g_pred G),
          g_node := dict_set n (dict_update [] attr) (g_node G)\<rparr>
      else
        G\<lparr>g_node := dict_set n
            (dict_update (case map_of (g_node G) n of None \<Rightarrow> [] | Some d \<Rightarrow> d) attr)
            (g_node G)\<rparr>)"

text \<open>
  \<^verbatim>\<open>add_edge(u, v, **attr)\<close>: endpoints that are missing are created with empty
  attributes; the edge's attribute dictionary is the one already stored for \<open>(u, v)\<close>, or
  an empty one, updated by \<open>attr\<close>, and is written to \<^verbatim>\<open>_succ[u][v]\<close> and \<^verbatim>\<open>_pred[v][u]\<close>.
\<close>

definition touch_node :: "string \<Rightarrow> digraph \<Rightarrow> digraph" where
  "touch_node n G =
     (if \<not> dict_has (g_succ G) n then
        G\<lparr>g_succ := dict_set n [] (g_succ G),
          g_pred := dict_set n [] (g_pred G),
          g_node := dict_set n [] (g_node G)\<rparr>
      else G)"

definition inner :: "adjacency \<Rightarrow> string \<Rightarrow> (string \<times> pydict) list" where
  "inner A u = (case map_of A u of None \<Rightarrow> [] | Some nb \<Rightarrow> nb)"

definition add_edge :: "string \<Rightarrow> string \<Rightarrow> pydict \<Rightarrow> digraph \<Rightarrow> digraph" where
  "add_edge u v attr G0 =
     (let G = touch_node v (touch_node u G0);
          datadict = dict_update
            (case map_of (inner (g_succ G) u) v of None \<Rightarrow> [] | Some d \<Rightarrow> d) attr
      in G\<lparr>g_succ := dict_set u (dict_set v datadict (inner (g_succ G) u)) (g_succ G),
           g_pred := dict_set v (dict_set u datadict (inner (g_pred G) v)) (g_pred G)\<rparr>)"

definition number_of_nodes :: "digraph \<Rightarrow> nat" where
  "number_of_nodes G = length (g_node G)"

text \<open>
  \<^verbatim>\<open>number_of_edges()\<close> is \<^verbatim>\<open>size()\<close>: half the sum of all in- and out-degrees.
\<close>

definition out_degree :: "digraph \<Rightarrow> string \<Rightarrow> nat" where
  "out_degree G n = length (inner (g_succ G) n)"

definition in_degree :: "digraph \<Rightarrow> string \<Rightarrow> nat" where
  "in_degree G n = length (inner (g_pred G) n)"

definition number_of_edges :: "digraph \<Rightarrow> nat" where
  "number_of_edges G =
     (\<Sum>n \<leftarrow> map fst (g_node G). in_degree G n + out_degree G n) div 2"

section \<open>Unweighted shortest paths of the graph library\<close>

text \<open>
  \<^verbatim>\<open>nx.shortest_path(G, source, target)\<close> without a weight is
  \<^verbatim>\<open>bidirectional_shortest_path\<close>: a breadth-first search from both ends, level by
  level, always expanding the smaller fringe, forwards first on a tie. The dictionary
  \<open>pred\<close> maps a node reached from the source to the node it was reached from, \<open>succ\<close>
  a node reached backwards from the target to the node it was reached from; the two
  roots map to \<^verbatim>\<open>None\<close>.
\<close>

type_synonym links = "string \<rightharpoonup> string option"

text \<open>
  The inner loop over the neighbours \<open>w\<close> of a fringe node \<open>v\<close>: a neighbour not seen on
  this side is recorded and joins the next fringe; a neighbour seen from the other side
  ends the search at once (\<open>Inl\<close>). The forward and the backward branch of the library
  differ only in which dictionary is \<open>mine\<close> and which adjacency is iterated.
\<close>

fun scan_nbrs ::
  "string \<Rightarrow> string list \<Rightarrow> links \<Rightarrow> links \<Rightarrow> string list
     \<Rightarrow> (links \<times> string) + (links \<times> string list)" where
  "scan_nbrs v [] mine other fr = Inr (mine, fr)"
| "scan_nbrs v (w # ws) mine other fr =
     (let mine' = (if mine w = None then mine(w \<mapsto> Some v) else mine);
          fr' = (if mine w = None then fr @ [w] else fr)
      in if other w \<noteq> None then Inl (mine', w)
         else scan_nbrs v ws mine' other fr')"

text \<open>The outer loop over the nodes of the level; \<^verbatim>\<open>Gsucc[v]\<close> raises for an unknown key.\<close>

fun scan_level ::
  "adjacency \<Rightarrow> string list \<Rightarrow> links \<Rightarrow> links \<Rightarrow> string list
     \<Rightarrow> py_error + ((links \<times> string) + (links \<times> string list))" where
  "scan_level A [] mine other fr = Inr (Inr (mine, fr))"
| "scan_level A (v # vs) mine other fr =
     (case map_of A v of
        None \<Rightarrow> Inl (KeyError v)
      | Some nb \<Rightarrow>
          (case scan_nbrs v (map fst nb) mine other fr of
             Inl found \<Rightarrow> Inr (Inl found)
           | Inr (mine', fr') \<Rightarrow> scan_level A vs mine' other fr'))"

text \<open>Every node id that occurs as a neighbour in an adjacency dictionary.\<close>

definition nbr_ids :: "adjacency \<Rightarrow> string set" where
  "nbr_ids A = (\<Union>e \<in> set A. fst ` set (snd e))"

text \<open>
  \<open>grown R m m'\<close>: the dictionary \<open>m'\<close> extends \<open>m\<close>, and every new key is linked to a
  node it was reached from along an edge of \<open>R\<close>.
\<close>

definition grown :: "(string \<times> string) set \<Rightarrow> links \<Rightarrow> links \<Rightarrow> bool" where
  "grown R m m' \<longleftrightarrow>
     (\<forall>x. m x \<noteq> None \<longrightarrow> m' x = m x) \<and>
     (\<forall>x. m x = None \<longrightarrow> m' x \<noteq> None \<longrightarrow> (\<exists>v. m' x = Some (Some v) \<and> (v, x) \<in> R))"

lemma grown_refl: "grown R m m"
  by (simp add: grown_def)

lemma grown_mono: "grown R m m' \<Longrightarrow> R \<subseteq> R' \<Longrightarrow> grown R' m m'"
  unfolding grown_def by blast

lemma grown_trans:
  assumes g1: "grown R m m'" and g2: "grown R' m' m''"
  shows "grown (R \<union> R') m m''"
  unfolding grown_def
proof (intro conjI allI impI)
  fix x assume "m x \<noteq> None"
  then have "m' x = m x" "m' x \<noteq> None" using g1 by (simp_all add: grown_def)
  then show "m'' x = m x" using g2 by (simp add: grown_def)
next
  fix x assume a: "m x = None" "m'' x \<noteq> None"
  show "\<exists>v. m'' x = Some (Some v) \<and> (v, x) \<in> R \<union> R'"
  proof (cases "m' x = None")
    case True
    then obtain v where "m'' x = Some (Some v)" "(v, x) \<in> R'"
      using g2 a(2) unfolding grown_def by blast
    then show ?thesis by blast
  next
    case False
    then obtain v where v: "m' x = Some (Some v)" "(v, x) \<in> R"
      using g1 a(1) unfolding grown_def by blast
    have "m'' x = m' x" using g2 False by (simp add: grown_def)
    then show ?thesis using v by simp
  qed
qed

lemma grown_step: "m w = None \<Longrightarrow> grown {(v, w)} m (m(w \<mapsto> Some v))"
  by (simp add: grown_def)

lemma scan_nbrs_Inr:
  "scan_nbrs v ws mine other fr = Inr (mine', fr') \<Longrightarrow>
     grown ({v} \<times> set ws) mine mine' \<and>
     set fr' = set fr \<union> {x. mine x = None \<and> mine' x \<noteq> None} \<and>
     (\<forall>w \<in> set ws. mine' w \<noteq> None) \<and>
     (\<forall>x. mine x = None \<longrightarrow> mine' x \<noteq> None \<longrightarrow> other x = None)"
proof (induction ws arbitrary: mine fr)
  case Nil
  then show ?case by (auto simp: grown_refl)
next
  case (Cons w ws)
  let ?m = "if mine w = None then mine(w \<mapsto> Some v) else mine"
  let ?f = "if mine w = None then fr @ [w] else fr"
  from Cons.prems have ow: "other w = None" and rec: "scan_nbrs v ws ?m other ?f = Inr (mine', fr')"
    by (auto simp: Let_def split: if_splits)
  from Cons.IH[OF rec] have g: "grown ({v} \<times> set ws) ?m mine'"
    and f: "set fr' = set ?f \<union> {x. ?m x = None \<and> mine' x \<noteq> None}"
    and d: "\<forall>w \<in> set ws. mine' w \<noteq> None"
    and o: "\<forall>x. ?m x = None \<longrightarrow> mine' x \<noteq> None \<longrightarrow> other x = None" by auto
  have g0: "grown {(v, w)} mine ?m" by (simp add: grown_step grown_refl)
  have "grown ({(v, w)} \<union> {v} \<times> set ws) mine mine'" by (rule grown_trans[OF g0 g])
  then have 1: "grown ({v} \<times> set (w # ws)) mine mine'" by (rule grown_mono) auto
  have mw: "mine' w \<noteq> None" using g unfolding grown_def by (auto split: if_splits)
  have ext: "\<And>x. ?m x \<noteq> None \<Longrightarrow> mine' x = ?m x" using g unfolding grown_def by blast
  have 2: "set fr' = set fr \<union> {x. mine x = None \<and> mine' x \<noteq> None}"
  proof (cases "mine w = None")
    case True
    then show ?thesis using f mw ext[of w] by (auto split: if_splits)
  next
    case False
    then show ?thesis using f by auto
  qed
  have 3: "\<forall>x. mine x = None \<longrightarrow> mine' x \<noteq> None \<longrightarrow> other x = None"
    using o ow by (auto split: if_splits)
  show ?case using 1 2 3 d mw by auto
qed


lemma scan_nbrs_Inl:
  "scan_nbrs v ws mine other fr = Inl (mine', w) \<Longrightarrow>
     grown ({v} \<times> set ws) mine mine' \<and> w \<in> set ws \<and> other w \<noteq> None \<and> mine' w \<noteq> None"
proof (induction ws arbitrary: mine fr)
  case Nil
  then show ?case by simp
next
  case (Cons u ws)
  let ?m = "if mine u = None then mine(u \<mapsto> Some v) else mine"
  let ?f = "if mine u = None then fr @ [u] else fr"
  have g0: "grown {(v, u)} mine ?m" by (simp add: grown_step grown_refl)
  show ?case
  proof (cases "other u \<noteq> None")
    case True
    with Cons.prems have e: "mine' = ?m" "w = u" by (auto simp: Let_def)
    have "grown ({v} \<times> set (u # ws)) mine ?m" by (rule grown_mono[OF g0]) auto
    then show ?thesis using e True by (auto split: if_splits)
  next
    case False
    with Cons.prems have rec: "scan_nbrs v ws ?m other ?f = Inl (mine', w)"
      by (auto simp: Let_def)
    from Cons.IH[OF rec] have g: "grown ({v} \<times> set ws) ?m mine'"
      and r: "w \<in> set ws" "other w \<noteq> None" "mine' w \<noteq> None" by auto
    have "grown ({(v, u)} \<union> {v} \<times> set ws) mine mine'" by (rule grown_trans[OF g0 g])
    then have "grown ({v} \<times> set (u # ws)) mine mine'" by (rule grown_mono) auto
    then show ?thesis using r by auto
  qed
qed

definition lev_edges :: "adjacency \<Rightarrow> string list \<Rightarrow> (string \<times> string) set" where
  "lev_edges A vs = {(v, w). v \<in> set vs \<and> w \<in> fst ` set (inner A v)}"

lemma lev_edges_Cons:
  "lev_edges A (v # vs) = ({v} \<times> fst ` set (inner A v)) \<union> lev_edges A vs"
  by (auto simp: lev_edges_def)

lemma grown_keeps: "grown R m m' \<Longrightarrow> m x \<noteq> None \<Longrightarrow> m' x \<noteq> None"
  by (simp add: grown_def)

lemma scan_level_Inr:
  "scan_level A vs mine other fr = Inr (Inr (mine', fr')) \<Longrightarrow>
     grown (lev_edges A vs) mine mine' \<and>
     set fr' = set fr \<union> {x. mine x = None \<and> mine' x \<noteq> None} \<and>
     (\<forall>e \<in> lev_edges A vs. mine' (snd e) \<noteq> None) \<and>
     (\<forall>x. mine x = None \<longrightarrow> mine' x \<noteq> None \<longrightarrow> other x = None)"
proof (induction vs arbitrary: mine fr)
  case Nil
  then have e: "mine' = mine" "fr' = fr" by simp_all
  have 1: "grown (lev_edges A []) mine mine" by (rule grown_refl)
  have 2: "set fr = set fr \<union> {x. mine x = None \<and> mine x \<noteq> None}" by blast
  have 3: "\<forall>e \<in> lev_edges A []. mine (snd e) \<noteq> None" by (simp add: lev_edges_def)
  have 4: "\<forall>x. mine x = None \<longrightarrow> mine x \<noteq> None \<longrightarrow> other x = None" by blast
  show ?case unfolding e using 1 2 3 4 by (intro conjI)
next
  case (Cons v vs)
  from Cons.prems obtain nb where nb: "map_of A v = Some nb"
    by (cases "map_of A v") simp_all
  from Cons.prems nb obtain st where s0: "scan_nbrs v (map fst nb) mine other fr = Inr st"
    by (cases "scan_nbrs v (map fst nb) mine other fr") simp_all
  obtain m1 f1 where st: "st = (m1, f1)" by (cases st)
  have s1: "scan_nbrs v (map fst nb) mine other fr = Inr (m1, f1)" using s0 st by simp
  have rec: "scan_level A vs m1 other f1 = Inr (Inr (mine', fr'))"
    using Cons.prems nb s1 by simp
  have inn: "fst ` set (inner A v) = set (map fst nb)" using nb by (simp add: inner_def)
  note r1 = scan_nbrs_Inr[OF s1]
  note r2 = Cons.IH[OF rec]
  have g1: "grown ({v} \<times> set (map fst nb)) mine m1" using r1 by (rule conjunct1)
  have f1: "set f1 = set fr \<union> {x. mine x = None \<and> m1 x \<noteq> None}"
    using r1 by (elim conjE)
  have d1: "\<forall>w \<in> set (map fst nb). m1 w \<noteq> None" using r1 by (elim conjE)
  have o1: "\<forall>x. mine x = None \<longrightarrow> m1 x \<noteq> None \<longrightarrow> other x = None" using r1 by (elim conjE)
  have g2: "grown (lev_edges A vs) m1 mine'" using r2 by (rule conjunct1)
  have f2: "set fr' = set f1 \<union> {x. m1 x = None \<and> mine' x \<noteq> None}" using r2 by (elim conjE)
  have d2: "\<forall>e \<in> lev_edges A vs. mine' (snd e) \<noteq> None" using r2 by (elim conjE)
  have o2: "\<forall>x. m1 x = None \<longrightarrow> mine' x \<noteq> None \<longrightarrow> other x = None" using r2 by (elim conjE)
  have 1: "grown (lev_edges A (v # vs)) mine mine'"
    using grown_trans[OF g1 g2] by (simp add: lev_edges_Cons inn)
  have k1: "\<And>x. mine x \<noteq> None \<Longrightarrow> m1 x \<noteq> None" using grown_keeps[OF g1] .
  have k2: "\<And>x. m1 x \<noteq> None \<Longrightarrow> mine' x \<noteq> None" using grown_keeps[OF g2] .
  have k1': "m1 x = None \<Longrightarrow> mine x = None" for x
    using k1[of x] by (cases "mine x") auto
  have k2': "mine' x = None \<Longrightarrow> m1 x = None" for x
    using k2[of x] by (cases "m1 x") auto
  have 2: "set fr' = set fr \<union> {x. mine x = None \<and> mine' x \<noteq> None}"
  proof (intro set_eqI iffI)
    fix x assume "x \<in> set fr'"
    then have "x \<in> set fr \<or> (mine x = None \<and> m1 x \<noteq> None) \<or> (m1 x = None \<and> mine' x \<noteq> None)"
      unfolding f2 f1 by blast
    then show "x \<in> set fr \<union> {x. mine x = None \<and> mine' x \<noteq> None}"
      using k1'[of x] k2'[of x] by (cases "mine x"; cases "mine' x") auto
  next
    fix x assume "x \<in> set fr \<union> {x. mine x = None \<and> mine' x \<noteq> None}"
    then have "x \<in> set fr \<or> (mine x = None \<and> mine' x \<noteq> None)" by blast
    then have "x \<in> set fr \<or> (mine x = None \<and> m1 x \<noteq> None) \<or> (m1 x = None \<and> mine' x \<noteq> None)"
      by (cases "m1 x = None") auto
    then show "x \<in> set fr'" unfolding f2 f1 by blast
  qed
  have 3: "\<forall>e \<in> lev_edges A (v # vs). mine' (snd e) \<noteq> None"
  proof
    fix e assume "e \<in> lev_edges A (v # vs)"
    then have "snd e \<in> set (map fst nb) \<or> e \<in> lev_edges A vs"
      unfolding lev_edges_Cons inn by force
    then show "mine' (snd e) \<noteq> None" using d1 d2 k2 by blast
  qed
  have 4: "\<forall>x. mine x = None \<longrightarrow> mine' x \<noteq> None \<longrightarrow> other x = None"
    using o1 o2 by blast
  show ?case using 1 2 3 4 by (intro conjI)
qed

lemma scan_level_Inl:
  "scan_level A vs mine other fr = Inr (Inl (mine', w)) \<Longrightarrow>
     grown (lev_edges A vs) mine mine' \<and> other w \<noteq> None \<and> mine' w \<noteq> None"
proof (induction vs arbitrary: mine fr)
  case Nil
  then show ?case by simp
next
  case (Cons v vs)
  from Cons.prems obtain nb where nb: "map_of A v = Some nb"
    by (auto split: option.splits)
  have inn: "fst ` set (inner A v) = set (map fst nb)" using nb by (simp add: inner_def)
  show ?case
  proof (cases "scan_nbrs v (map fst nb) mine other fr")
    case (Inl found)
    with Cons.prems nb have e: "found = (mine', w)" by simp
    from scan_nbrs_Inl[OF Inl[unfolded e]]
    have "grown ({v} \<times> set (map fst nb)) mine mine'" and r: "other w \<noteq> None" "mine' w \<noteq> None"
      by auto
    then have "grown (lev_edges A (v # vs)) mine mine'"
      by (auto intro: grown_mono simp: lev_edges_Cons inn)
    then show ?thesis using r by simp
  next
    case (Inr st)
    obtain m1 f1 where st: "st = (m1, f1)" by (cases st)
    with Cons.prems nb Inr have rec: "scan_level A vs m1 other f1 = Inr (Inl (mine', w))"
      by simp
    from scan_nbrs_Inr[OF Inr[unfolded st]] have g1: "grown ({v} \<times> set (map fst nb)) mine m1"
      by simp
    from Cons.IH[OF rec] have g2: "grown (lev_edges A vs) m1 mine'"
      and r: "other w \<noteq> None" "mine' w \<noteq> None" by auto
    have "grown (lev_edges A (v # vs)) mine mine'"
      using grown_trans[OF g1 g2] by (simp add: lev_edges_Cons inn)
    then show ?thesis using r by simp
  qed
qed

lemma scan_level_total:
  "\<forall>v \<in> set vs. map_of A v \<noteq> None \<Longrightarrow> \<exists>r. scan_level A vs mine other fr = Inr r"
proof (induction vs arbitrary: mine fr)
  case Nil
  then show ?case by simp
next
  case (Cons v vs)
  then obtain nb where nb: "map_of A v = Some nb" by auto
  have rest: "\<forall>v \<in> set vs. map_of A v \<noteq> None" using Cons.prems by simp
  show ?case
  proof (cases "scan_nbrs v (map fst nb) mine other fr")
    case (Inl found)
    then show ?thesis using nb by simp
  next
    case (Inr st)
    obtain m1 f1 where st: "st = (m1, f1)" by (cases st)
    from Cons.IH[OF rest, of m1 f1] show ?thesis using nb Inr st by simp
  qed
qed

lemma lev_edges_nbr_ids:
  assumes "(v, w) \<in> lev_edges A vs"
  shows "w \<in> nbr_ids A"
proof -
  from assms have w: "w \<in> fst ` set (inner A v)" by (simp add: lev_edges_def)
  then obtain nb where nb: "map_of A v = Some nb" "inner A v = nb"
    by (cases "map_of A v") (auto simp: inner_def)
  then have "(v, nb) \<in> set A" by (simp add: map_of_SomeD)
  then show ?thesis using w nb(2) unfolding nbr_ids_def by force
qed

lemma finite_nbr_ids: "finite (nbr_ids A)"
  by (simp add: nbr_ids_def)

definition search_ids :: "digraph \<Rightarrow> string set" where
  "search_ids G = nbr_ids (g_succ G) \<union> nbr_ids (g_pred G)"

definition unseen :: "digraph \<Rightarrow> links \<Rightarrow> nat" where
  "unseen G m = card (search_ids G - dom m)"

lemma scan_level_unseen:
  assumes "scan_level A vs mine other [] = Inr (Inr (mine', fr'))"
    and "nbr_ids A \<subseteq> search_ids G"
  shows "unseen G mine' \<le> unseen G mine"
    and "fr' \<noteq> [] \<Longrightarrow> unseen G mine' < unseen G mine"
proof -
  from scan_level_Inr[OF assms(1)] have g: "grown (lev_edges A vs) mine mine'"
    and f: "set fr' = {x. mine x = None \<and> mine' x \<noteq> None}" by auto
  have fin: "finite (search_ids G)" by (simp add: search_ids_def finite_nbr_ids)
  have sub: "dom mine \<subseteq> dom mine'" using grown_keeps[OF g] by (auto simp: dom_def)
  then have ss: "search_ids G - dom mine' \<subseteq> search_ids G - dom mine" by auto
  show "unseen G mine' \<le> unseen G mine"
    unfolding unseen_def by (rule card_mono) (use fin ss in auto)
  assume "fr' \<noteq> []"
  then obtain x where x: "x \<in> set fr'" by (cases fr') auto
  then have x1: "mine x = None" "mine' x \<noteq> None" using f by auto
  then obtain v where "(v, x) \<in> lev_edges A vs" using g unfolding grown_def by blast
  then have "x \<in> search_ids G" using lev_edges_nbr_ids assms(2) by blast
  then have "x \<in> search_ids G - dom mine" "x \<notin> search_ids G - dom mine'"
    using x1 by (auto simp: dom_def)
  then have "search_ids G - dom mine' \<subset> search_ids G - dom mine" using ss by blast
  then show "unseen G mine' < unseen G mine"
    unfolding unseen_def by (intro psubset_card_mono) (use fin in auto)
qed


function bidirectional_loop ::
  "digraph \<Rightarrow> links \<Rightarrow> links \<Rightarrow> string list \<Rightarrow> string list
     \<Rightarrow> py_error + (links \<times> links \<times> string)" where
  "bidirectional_loop G pred succ forward_fringe reverse_fringe =
     (if forward_fringe = [] \<or> reverse_fringe = [] then Inl NetworkXNoPath
      else if length forward_fringe \<le> length reverse_fringe then
        (case scan_level (g_succ G) forward_fringe pred succ [] of
           Inl e \<Rightarrow> Inl e
         | Inr (Inl (pred', w)) \<Rightarrow> Inr (pred', succ, w)
         | Inr (Inr (pred', fringe')) \<Rightarrow> bidirectional_loop G pred' succ fringe' reverse_fringe)
      else
        (case scan_level (g_pred G) reverse_fringe succ pred [] of
           Inl e \<Rightarrow> Inl e
         | Inr (Inl (succ', w)) \<Rightarrow> Inr (pred, succ', w)
         | Inr (Inr (succ', fringe')) \<Rightarrow> bidirectional_loop G pred succ' forward_fringe fringe'))"
  by pat_completeness auto
termination
proof (relation "measure (\<lambda>(G, pred, succ, ff, rf).
          2 * (unseen G pred + unseen G succ) + (if ff \<noteq> [] \<and> rf \<noteq> [] then 1 else 0))",
       goal_cases)
  case 1
  show ?case by simp
next
  case (2 G pred succ ff rf r st pred' fringe')
  have s: "scan_level (g_succ G) ff pred succ [] = Inr (Inr (pred', fringe'))"
    using 2 by simp
  have sub: "nbr_ids (g_succ G) \<subseteq> search_ids G" by (simp add: search_ids_def)
  note u = scan_level_unseen[OF s sub]
  show ?case
  proof (cases "fringe' = []")
    case True
    then show ?thesis using u(1) 2(1) by simp
  next
    case False
    then show ?thesis using u(2) by simp
  qed
next
  case (3 G pred succ ff rf r st succ' fringe')
  have s: "scan_level (g_pred G) rf succ pred [] = Inr (Inr (succ', fringe'))"
    using 3 by simp
  have sub: "nbr_ids (g_pred G) \<subseteq> search_ids G" by (simp add: search_ids_def)
  note u = scan_level_unseen[OF s sub]
  show ?case
  proof (cases "fringe' = []")
    case True
    then show ?thesis using u(1) 3(1) by simp
  next
    case False
    then show ?thesis using u(2) by simp
  qed
qed

text \<open>
  The two \<^verbatim>\<open>while w is not None\<close> loops that read the path off the dictionaries: from
  \<open>w\<close>, follow the links until the root's \<^verbatim>\<open>None\<close>. A key that is missing raises; a
  cycle of links would never end (\<open>None\<close> of the option type).
\<close>

partial_function (option) follow_links ::
  "links \<Rightarrow> string option \<Rightarrow> (py_error + string list) option" where
  "follow_links m w =
     (case w of
        None \<Rightarrow> Some (Inr [])
      | Some x \<Rightarrow>
          (case m x of
             None \<Rightarrow> Some (Inl (KeyError x))
           | Some nxt \<Rightarrow>
               Option.bind (follow_links m nxt)
                 (\<lambda>r. case r of Inl e \<Rightarrow> Some (Inl e) | Inr p \<Rightarrow> Some (Inr (x # p)))))"

text \<open>\<^verbatim>\<open>_bidirectional_pred_succ\<close> and \<^verbatim>\<open>bidirectional_shortest_path\<close>.\<close>

definition bidirectional_pred_succ ::
  "digraph \<Rightarrow> string \<Rightarrow> string \<Rightarrow> py_error + (links \<times> links \<times> string)" where
  "bidirectional_pred_succ G source target =
     (if target = source then Inr ([target \<mapsto> None], [source \<mapsto> None], source)
      else bidirectional_loop G [source \<mapsto> None] [target \<mapsto> None] [source] [target])"

definition bidirectional_shortest_path ::
  "digraph \<Rightarrow> string \<Rightarrow> string \<Rightarrow> (py_error + string list) option" where
  "bidirectional_shortest_path G source target =
     (if \<not> has_node G source \<or> \<not> has_node G target then Some (Inl NodeNotFound)
      else case bidirectional_pred_succ G source target of
        Inl e \<Rightarrow> Some (Inl e)
      | Inr (pred, succ, w) \<Rightarrow>
          (case follow_links pred (Some w) of
             None \<Rightarrow> None
           | Some (Inl e) \<Rightarrow> Some (Inl e)
           | Some (Inr back) \<Rightarrow>
               (case rev back of
                  [] \<Rightarrow> Some (Inl IndexError)
                | path \<Rightarrow>
                    (case succ (last path) of
                       None \<Rightarrow> Some (Inl (KeyError (last path)))
                     | Some w' \<Rightarrow>
                         (case follow_links succ w' of
                            None \<Rightarrow> None
                          | Some (Inl e) \<Rightarrow> Some (Inl e)
                          | Some (Inr rest) \<Rightarrow> Some (Inr (path @ rest)))))))"

definition shortest_path :: "digraph \<Rightarrow> string \<Rightarrow> string \<Rightarrow> (py_error + string list) option" where
  "shortest_path G source target = bidirectional_shortest_path G source target"

subsection \<open>Edges, paths and well-formed graphs\<close>

definition edges_of :: "adjacency \<Rightarrow> (string \<times> string) set" where
  "edges_of A = {(u, w). w \<in> fst ` set (inner A u)}"

fun is_path :: "(string \<times> string) set \<Rightarrow> string list \<Rightarrow> bool" where
  "is_path E [] = True"
| "is_path E [x] = True"
| "is_path E (x # y # r) = ((x, y) \<in> E \<and> is_path E (y # r))"

text \<open>
  What every graph built through \<^verbatim>\<open>add_node\<close> and \<^verbatim>\<open>add_edge\<close> satisfies: the three
  dictionaries have the same keys, every neighbour is a node, and \<^verbatim>\<open>_pred\<close> is
  \<^verbatim>\<open>_succ\<close> reversed.
\<close>

definition wf_digraph :: "digraph \<Rightarrow> bool" where
  "wf_digraph G \<longleftrightarrow>
     fst ` set (g_succ G) = fst ` set (g_node G) \<and>
     fst ` set (g_pred G) = fst ` set (g_node G) \<and>
     nbr_ids (g_succ G) \<subseteq> fst ` set (g_node G) \<and>
     nbr_ids (g_pred G) \<subseteq> fst ` set (g_node G) \<and>
     edges_of (g_pred G) = (edges_of (g_succ G))\<inverse>"

text \<open>
  The state of one side of the search after \<open>i\<close> levels: the root is linked to
  \<^verbatim>\<open>None\<close>; every recorded node has a link chain of at most \<open>i + 1\<close> nodes back to the
  root along edges of \<open>R\<close>; every node within \<open>i\<close> steps of the root is recorded; the
  neighbours of a recorded node outside the fringe are recorded.
\<close>

definition side_inv ::
  "(string \<times> string) set \<Rightarrow> string set \<Rightarrow> string \<Rightarrow> links \<Rightarrow> string list \<Rightarrow> nat \<Rightarrow> bool" where
  "side_inv R K rt m fr i \<longleftrightarrow>
     m rt = Some None \<and>
     (\<forall>x. m x \<noteq> None \<longrightarrow> x \<in> K) \<and>
     (\<forall>x. m x \<noteq> None \<longrightarrow>
        (\<exists>p. follow_links m (Some x) = Some (Inr p) \<and> length p \<le> Suc i \<and>
             last p = rt \<and> is_path (R\<inverse>) p)) \<and>
     (\<forall>n x. n \<le> i \<longrightarrow> (rt, x) \<in> R ^^ n \<longrightarrow> m x \<noteq> None) \<and>
     (\<forall>y x. m y \<noteq> None \<longrightarrow> y \<notin> set fr \<longrightarrow> (y, x) \<in> R \<longrightarrow> m x \<noteq> None) \<and>
     (\<forall>x \<in> set fr. m x \<noteq> None)"

subsection \<open>Correctness of the search\<close>

lemma follow_links_None [simp]: "follow_links m None = Some (Inr [])"
  by (simp add: follow_links.simps)

lemma follow_links_Some:
  "follow_links m (Some x) =
     (case m x of
        None \<Rightarrow> Some (Inl (KeyError x))
      | Some nxt \<Rightarrow>
          Option.bind (follow_links m nxt)
            (\<lambda>r. case r of Inl e \<Rightarrow> Some (Inl e) | Inr p \<Rightarrow> Some (Inr (x # p))))"
  by (subst follow_links.simps) simp

lemma follow_links_SomeD:
  assumes "follow_links m (Some x) = Some (Inr p)"
  obtains nxt q where "m x = Some nxt" "follow_links m nxt = Some (Inr q)" "p = x # q"
proof -
  from assms obtain nxt where nxt: "m x = Some nxt"
    by (cases "m x") (simp_all add: follow_links_Some)
  from assms nxt obtain r where r: "follow_links m nxt = Some r"
    by (cases "follow_links m nxt") (simp_all add: follow_links_Some)
  from assms nxt r obtain q where "r = Inr q" "p = x # q"
    by (cases r) (simp_all add: follow_links_Some)
  with nxt r that show thesis by simp
qed

lemma follow_links_ext:
  assumes ext: "\<And>k. m k \<noteq> None \<Longrightarrow> m' k = m k"
  shows "follow_links m s = Some (Inr p) \<Longrightarrow> follow_links m' s = Some (Inr p)"
proof (induction p arbitrary: s)
  case Nil
  show ?case
  proof (cases s)
    case None
    then show ?thesis by simp
  next
    case (Some x)
    with Nil show ?thesis by (auto elim: follow_links_SomeD)
  qed
next
  case (Cons a q)
  show ?case
  proof (cases s)
    case None
    with Cons.prems show ?thesis by simp
  next
    case (Some x)
    from Cons.prems[unfolded Some] obtain nxt q' where
      n: "m x = Some nxt" "follow_links m nxt = Some (Inr q')" "a # q = x # q'"
      by (rule follow_links_SomeD)
    then have q: "q' = q" "a = x" by simp_all
    have m': "m' x = Some nxt" using ext[of x] n(1) by simp
    have "follow_links m' nxt = Some (Inr q)" using Cons.IH n(2) q by simp
    then show ?thesis unfolding Some by (subst follow_links_Some) (simp add: m' q)
  qed
qed

lemma is_path_Cons: "is_path E (x # p) \<longleftrightarrow> (p = [] \<or> ((x, hd p) \<in> E \<and> is_path E p))"
  by (cases p) simp_all

text \<open>Chains after a (partial) level expansion.\<close>

lemma grown_chain:
  assumes inv: "side_inv R K rt m fr i"
    and g: "grown L m m'"
    and L: "\<And>v w. (v, w) \<in> L \<Longrightarrow> v \<in> set fr \<and> (v, w) \<in> R"
    and x: "m' x \<noteq> None"
  shows "\<exists>p. follow_links m' (Some x) = Some (Inr p) \<and> length p \<le> Suc (Suc i) \<and>
             last p = rt \<and> is_path (R\<inverse>) p \<and>
             (m x \<noteq> None \<longrightarrow> length p \<le> Suc i)"
proof -
  have ext: "\<And>k. m k \<noteq> None \<Longrightarrow> m' k = m k" using g by (simp add: grown_def)
  have old: "\<exists>p. follow_links m' (Some y) = Some (Inr p) \<and> length p \<le> Suc i \<and>
             last p = rt \<and> is_path (R\<inverse>) p" if y: "m y \<noteq> None" for y
  proof -
    from inv y obtain p where p: "follow_links m (Some y) = Some (Inr p)" "length p \<le> Suc i"
      "last p = rt" "is_path (R\<inverse>) p" unfolding side_inv_def by blast
    from follow_links_ext[of m m', OF ext p(1)] p show ?thesis by blast
  qed
  show ?thesis
  proof (cases "m x = None")
    case False
    from old[OF False] False show ?thesis by fastforce
  next
    case True
    with g x obtain v where v: "m' x = Some (Some v)" "(v, x) \<in> L"
      unfolding grown_def by blast
    from L[OF v(2)] have vf: "v \<in> set fr" and vR: "(v, x) \<in> R" by simp_all
    from inv vf have mv: "m v \<noteq> None" unfolding side_inv_def by blast
    from old[OF mv] obtain p where p: "follow_links m' (Some v) = Some (Inr p)"
      "length p \<le> Suc i" "last p = rt" "is_path (R\<inverse>) p" by blast
    from p(1) obtain q where pq: "p = v # q" by (rule follow_links_SomeD)
    have f: "follow_links m' (Some x) = Some (Inr (x # p))"
      by (subst follow_links_Some) (simp add: v(1) p(1))
    have "is_path (R\<inverse>) (x # p)" using p(4) vR pq by simp
    moreover have "last (x # p) = rt" using p(3) pq by simp
    ultimately show ?thesis using f p(2) True by auto
  qed
qed


lemma lev_edges_edges_of: "lev_edges A fr = {(v, w). v \<in> set fr \<and> (v, w) \<in> edges_of A}"
  by (auto simp: lev_edges_def edges_of_def)

lemma side_step:
  assumes inv: "side_inv R K rt m fr i"
    and R: "edges_of A = R"
    and RK: "\<And>v w. (v, w) \<in> R \<Longrightarrow> w \<in> K"
    and s: "scan_level A fr m other [] = Inr (Inr (m', fr'))"
  shows "side_inv R K rt m' fr' (Suc i)"
proof -
  note r = scan_level_Inr[OF s]
  have g: "grown (lev_edges A fr) m m'" using r by (rule conjunct1)
  have f: "set fr' = set [] \<union> {x. m x = None \<and> m' x \<noteq> None}" using r by (elim conjE)
  have d: "\<forall>e \<in> lev_edges A fr. m' (snd e) \<noteq> None" using r by (elim conjE)
  have L: "(v, w) \<in> lev_edges A fr \<Longrightarrow> v \<in> set fr \<and> (v, w) \<in> R" for v w
    using R by (simp add: lev_edges_edges_of)
  have ext: "m k \<noteq> None \<Longrightarrow> m' k = m k" for k using g by (simp add: grown_def)
  have keep: "m k \<noteq> None \<Longrightarrow> m' k \<noteq> None" for k using ext[of k] by simp
  have i1: "m rt = Some None" using inv by (simp add: side_inv_def)
  have i2: "m x \<noteq> None \<Longrightarrow> x \<in> K" for x using inv unfolding side_inv_def by blast
  have i4: "n \<le> i \<Longrightarrow> (rt, x) \<in> R ^^ n \<Longrightarrow> m x \<noteq> None" for n x
    using inv unfolding side_inv_def by blast
  have i5: "m y \<noteq> None \<Longrightarrow> y \<notin> set fr \<Longrightarrow> (y, x) \<in> R \<Longrightarrow> m x \<noteq> None" for y x
    using inv unfolding side_inv_def by blast
  have succ_seen: "m' x \<noteq> None" if y: "m y \<noteq> None" and e: "(y, x) \<in> R" for y x
  proof (cases "y \<in> set fr")
    case True
    then have "(y, x) \<in> lev_edges A fr" using e R by (simp add: lev_edges_edges_of)
    then show ?thesis using d by fastforce
  next
    case False
    from i5[OF y False e] show ?thesis by (rule keep)
  qed
  have 1: "m' rt = Some None" using ext[of rt] i1 by simp
  have 2: "\<forall>x. m' x \<noteq> None \<longrightarrow> x \<in> K"
  proof (intro allI impI)
    fix x assume x: "m' x \<noteq> None"
    show "x \<in> K"
    proof (cases "m x = None")
      case False then show ?thesis by (rule i2)
    next
      case True
      with g x obtain v where "(v, x) \<in> lev_edges A fr" unfolding grown_def by blast
      then show ?thesis using L RK by blast
    qed
  qed
  have 3: "\<forall>x. m' x \<noteq> None \<longrightarrow>
        (\<exists>p. follow_links m' (Some x) = Some (Inr p) \<and> length p \<le> Suc (Suc i) \<and>
             last p = rt \<and> is_path (R\<inverse>) p)"
  proof (intro allI impI)
    fix x assume x: "m' x \<noteq> None"
    from grown_chain[OF inv g L x] show "\<exists>p. follow_links m' (Some x) = Some (Inr p) \<and>
        length p \<le> Suc (Suc i) \<and> last p = rt \<and> is_path (R\<inverse>) p" by blast
  qed
  have 4: "\<forall>n x. n \<le> Suc i \<longrightarrow> (rt, x) \<in> R ^^ n \<longrightarrow> m' x \<noteq> None"
  proof (intro allI impI)
    fix n x assume n: "n \<le> Suc i" and p: "(rt, x) \<in> R ^^ n"
    show "m' x \<noteq> None"
    proof (cases n)
      case 0
      with p have "x = rt" by simp
      then show ?thesis using 1 by simp
    next
      case (Suc k)
      with p obtain y where y: "(rt, y) \<in> R ^^ k" "(y, x) \<in> R" by auto
      have "m y \<noteq> None" using i4[OF _ y(1)] n Suc by simp
      then show ?thesis using y(2) by (rule succ_seen)
    qed
  qed
  have 5: "\<forall>y x. m' y \<noteq> None \<longrightarrow> y \<notin> set fr' \<longrightarrow> (y, x) \<in> R \<longrightarrow> m' x \<noteq> None"
  proof (intro allI impI)
    fix y x assume y: "m' y \<noteq> None" and nf: "y \<notin> set fr'" and e: "(y, x) \<in> R"
    have "m y \<noteq> None" using y nf f by auto
    then show "m' x \<noteq> None" using e by (rule succ_seen)
  qed
  have 6: "\<forall>x \<in> set fr'. m' x \<noteq> None" using f by auto
  show ?thesis unfolding side_inv_def using 1 2 3 4 5 6 by (intro conjI)
qed

lemma side_step_fresh:
  assumes s: "scan_level A fr m other [] = Inr (Inr (m', fr'))"
    and dis: "\<And>x. m x \<noteq> None \<Longrightarrow> other x = None"
  shows "m' x \<noteq> None \<Longrightarrow> other x = None"
proof -
  note r = scan_level_Inr[OF s]
  have g: "grown (lev_edges A fr) m m'" using r by (rule conjunct1)
  have o: "\<forall>x. m x = None \<longrightarrow> m' x \<noteq> None \<longrightarrow> other x = None" using r by (elim conjE)
  assume x: "m' x \<noteq> None"
  show "other x = None"
  proof (cases "m x = None")
    case True then show ?thesis using o x by blast
  next
    case False then show ?thesis by (rule dis)
  qed
qed

lemma side_found:
  assumes inv: "side_inv R K rt m fr i"
    and R: "edges_of A = R"
    and s: "scan_level A fr m other [] = Inr (Inl (m', w))"
  shows "other w \<noteq> None \<and>
     (\<exists>p. follow_links m' (Some w) = Some (Inr p) \<and> length p \<le> Suc (Suc i) \<and>
          last p = rt \<and> is_path (R\<inverse>) p)"
proof -
  note r = scan_level_Inl[OF s]
  have g: "grown (lev_edges A fr) m m'" using r by (rule conjunct1)
  have ow: "other w \<noteq> None" and mw: "m' w \<noteq> None" using r by simp_all
  have L: "(v, w) \<in> lev_edges A fr \<Longrightarrow> v \<in> set fr \<and> (v, w) \<in> R" for v w
    using R by (simp add: lev_edges_edges_of)
  from grown_chain[OF inv g L mw] ow show ?thesis by blast
qed

lemma side_inv_total:
  assumes inv: "side_inv R K rt m fr i" and K: "K = fst ` set A"
  shows "\<exists>r. scan_level A fr m other acc = Inr r"
proof (rule scan_level_total, rule ballI)
  fix v assume "v \<in> set fr"
  then have "v \<in> K" using inv unfolding side_inv_def by blast
  then obtain e where "e \<in> set A" "fst e = v" using K by auto
  then show "map_of A v \<noteq> None"
    by (metis domIff dom_map_of_conv_image_fst image_eqI)
qed

lemma side_closed:
  assumes inv: "side_inv R K rt m [] i"
  shows "(rt, x) \<in> R ^^ n \<Longrightarrow> m x \<noteq> None"
proof (induction n arbitrary: x)
  case 0
  then show ?case using inv by (simp add: side_inv_def)
next
  case (Suc n)
  then obtain y where y: "(rt, y) \<in> R ^^ n" "(y, x) \<in> R" by auto
  from Suc.IH[OF y(1)] have "m y \<noteq> None" .
  then show ?case using inv y(2) unfolding side_inv_def by simp
qed

lemma relpow_conv: "(x, y) \<in> (R\<inverse>) ^^ n \<longleftrightarrow> (y, x) \<in> (R :: ('a \<times> 'a) set) ^^ n"
proof (induction n arbitrary: x y)
  case 0
  show ?case by auto
next
  case (Suc n)
  show ?case
  proof
    assume "(x, y) \<in> (R\<inverse>) ^^ Suc n"
    then obtain z where z: "(x, z) \<in> (R\<inverse>) ^^ n" "(y, z) \<in> R" by auto
    then have "(z, x) \<in> R ^^ n" using Suc.IH by simp
    then show "(y, x) \<in> R ^^ Suc n" using z(2) by (rule relpow_Suc_I2[rotated])
  next
    assume "(y, x) \<in> R ^^ Suc n"
    then obtain z where z: "(y, z) \<in> R" "(z, x) \<in> R ^^ n" by (rule relpow_Suc_E2)
    then have "(x, z) \<in> (R\<inverse>) ^^ n" using Suc.IH by simp
    then show "(x, y) \<in> (R\<inverse>) ^^ Suc n" using z(1) by auto
  qed
qed

lemma sides_apart:
  assumes f: "side_inv E K a pred ff i" and b: "side_inv (E\<inverse>) K b succ rf j"
    and dis: "\<And>x. pred x \<noteq> None \<Longrightarrow> succ x = None"
    and n: "n \<le> i + j"
  shows "(a, b) \<notin> E ^^ n"
proof
  assume p: "(a, b) \<in> E ^^ n"
  define n1 where "n1 = min n i"
  define n2 where "n2 = n - n1"
  have n12: "n = n1 + n2" "n1 \<le> i" "n2 \<le> j" using n by (auto simp: n1_def n2_def)
  from p[unfolded n12(1) relpow_add] obtain y where y: "(a, y) \<in> E ^^ n1" "(y, b) \<in> E ^^ n2"
    by auto
  have "(b, y) \<in> (E\<inverse>) ^^ n2" using y(2) by (simp add: relpow_conv)
  then have "succ y \<noteq> None" using b n12(3) unfolding side_inv_def by blast
  moreover have "pred y \<noteq> None" using f n12(2) y(1) unfolding side_inv_def by blast
  ultimately show False using dis[of y] by simp
qed


lemma side_inv_chain:
  assumes "side_inv R K rt m fr i" "m x \<noteq> None"
  obtains p where "follow_links m (Some x) = Some (Inr p)" "length p \<le> Suc i"
    "last p = rt" "is_path (R\<inverse>) p"
  using assms unfolding side_inv_def by blast

lemma bidirectional_loop_correct:
  assumes E: "edges_of (g_succ G) = E" "edges_of (g_pred G) = E\<inverse>"
    and K: "K = fst ` set (g_succ G)" "K = fst ` set (g_pred G)"
    and EK: "\<And>v w. (v, w) \<in> E \<Longrightarrow> v \<in> K \<and> w \<in> K"
  shows "side_inv E K a pred ff i \<Longrightarrow> side_inv (E\<inverse>) K b succ rf j \<Longrightarrow>
     (\<And>x. pred x \<noteq> None \<Longrightarrow> succ x = None) \<Longrightarrow>
     (bidirectional_loop G pred succ ff rf = Inl NetworkXNoPath \<and> (\<forall>n. (a, b) \<notin> E ^^ n)) \<or>
     (\<exists>pred' succ' w p q. bidirectional_loop G pred succ ff rf = Inr (pred', succ', w) \<and>
         follow_links pred' (Some w) = Some (Inr p) \<and>
         follow_links succ' (Some w) = Some (Inr q) \<and>
         last p = a \<and> last q = b \<and> is_path (E\<inverse>) p \<and> is_path E q \<and>
         (\<forall>n. (a, b) \<in> E ^^ n \<longrightarrow> length p + length q \<le> n + 2))"
  using E K
proof (induction G pred succ ff rf arbitrary: i j rule: bidirectional_loop.induct)
  case (1 G pred succ ff rf)
  note fi = \<open>side_inv E K a pred ff i\<close>
  note bi = \<open>side_inv (E\<inverse>) K b succ rf j\<close>
  have dis: "pred x \<noteq> None \<Longrightarrow> succ x = None" for x using "1.prems"(3) .
  have dis': "succ x \<noteq> None \<Longrightarrow> pred x = None" for x using dis[of x] by (cases "pred x") auto
  note Es = \<open>edges_of (g_succ G) = E\<close> and Ep = \<open>edges_of (g_pred G) = E\<inverse>\<close>
  note Ks = \<open>K = fst ` set (g_succ G)\<close> and Kp = \<open>K = fst ` set (g_pred G)\<close>
  have EK2: "(v, w) \<in> E \<Longrightarrow> w \<in> K" for v w using EK by blast
  have EK1: "(v, w) \<in> E\<inverse> \<Longrightarrow> w \<in> K" for v w using EK by blast
  have pa: "pred a = Some None" using fi by (simp add: side_inv_def)
  have sb: "succ b = Some None" using bi by (simp add: side_inv_def)
  show ?case
  proof (cases "ff = [] \<or> rf = []")
    case True
    have res: "bidirectional_loop G pred succ ff rf = Inl NetworkXNoPath"
      using True by (subst bidirectional_loop.simps) simp
    have "(a, b) \<notin> E ^^ n" for n
    proof
      assume p: "(a, b) \<in> E ^^ n"
      from True show False
      proof
        assume "ff = []"
        with fi have "side_inv E K a pred [] i" by simp
        from side_closed[OF this p] have "pred b \<noteq> None" .
        then show False using dis[of b] sb by simp
      next
        assume "rf = []"
        with bi have c: "side_inv (E\<inverse>) K b succ [] j" by simp
        have "(b, a) \<in> (E\<inverse>) ^^ n" using p by (simp add: relpow_conv)
        from side_closed[OF c this] have "succ a \<noteq> None" .
        then show False using dis'[of a] pa by simp
      qed
    qed
    then show ?thesis using res by blast
  next
    case False
    show ?thesis
    proof (cases "length ff \<le> length rf")
      case True
      from side_inv_total[OF fi Ks] obtain r where
        r: "scan_level (g_succ G) ff pred succ [] = Inr r" by blast
      show ?thesis
      proof (cases r)
        case (Inl found)
        obtain pred' w where fw: "found = (pred', w)" by (cases found)
        have s: "scan_level (g_succ G) ff pred succ [] = Inr (Inl (pred', w))"
          using r Inl fw by simp
        have res: "bidirectional_loop G pred succ ff rf = Inr (pred', succ, w)"
          using False True s by (subst bidirectional_loop.simps) simp
        from side_found[OF fi Es s] obtain p where sw: "succ w \<noteq> None"
          and p: "follow_links pred' (Some w) = Some (Inr p)" "length p \<le> Suc (Suc i)"
            "last p = a" "is_path (E\<inverse>) p" by blast
        from side_inv_chain[OF bi sw] obtain q where
          q: "follow_links succ (Some w) = Some (Inr q)" "length q \<le> Suc j"
            "last q = b" "is_path ((E\<inverse>)\<inverse>) q" by blast
        have bound: "length p + length q \<le> n + 2" if n: "(a, b) \<in> E ^^ n" for n
        proof -
          have "\<not> n \<le> i + j" using sides_apart[OF fi bi dis, of n] n by blast
          then show ?thesis using p(2) q(2) by simp
        qed
        show ?thesis using res p q bound by auto
      next
        case (Inr st)
        obtain pred' ff' where st: "st = (pred', ff')" by (cases st)
        have s: "scan_level (g_succ G) ff pred succ [] = Inr (Inr (pred', ff'))"
          using r Inr st by simp
        have res: "bidirectional_loop G pred succ ff rf = bidirectional_loop G pred' succ ff' rf"
          using False True s by (subst bidirectional_loop.simps) simp
        have fi': "side_inv E K a pred' ff' (Suc i)" using side_step[OF fi Es EK2 s] .
        have dis2: "pred' x \<noteq> None \<Longrightarrow> succ x = None" for x
          using side_step_fresh[OF s dis] .
        from "1.IH"(1)[OF False True s refl refl fi' bi dis2 Es Ep Ks Kp]
        show ?thesis unfolding res .
      qed
    next
      case nle: False
      from side_inv_total[OF bi Kp] obtain r where
        r: "scan_level (g_pred G) rf succ pred [] = Inr r" by blast
      show ?thesis
      proof (cases r)
        case (Inl found)
        obtain succ' w where fw: "found = (succ', w)" by (cases found)
        have s: "scan_level (g_pred G) rf succ pred [] = Inr (Inl (succ', w))"
          using r Inl fw by simp
        have res: "bidirectional_loop G pred succ ff rf = Inr (pred, succ', w)"
          using False nle s by (subst bidirectional_loop.simps) simp
        from side_found[OF bi Ep s] obtain q where pw: "pred w \<noteq> None"
          and q: "follow_links succ' (Some w) = Some (Inr q)" "length q \<le> Suc (Suc j)"
            "last q = b" "is_path ((E\<inverse>)\<inverse>) q" by blast
        from side_inv_chain[OF fi pw] obtain p where
          p: "follow_links pred (Some w) = Some (Inr p)" "length p \<le> Suc i"
            "last p = a" "is_path (E\<inverse>) p" by blast
        have bound: "length p + length q \<le> n + 2" if n: "(a, b) \<in> E ^^ n" for n
        proof -
          have "\<not> n \<le> i + j" using sides_apart[OF fi bi dis, of n] n by blast
          then show ?thesis using p(2) q(2) by simp
        qed
        show ?thesis using res p q bound by auto
      next
        case (Inr st)
        obtain succ' rf' where st: "st = (succ', rf')" by (cases st)
        have s: "scan_level (g_pred G) rf succ pred [] = Inr (Inr (succ', rf'))"
          using r Inr st by simp
        have res: "bidirectional_loop G pred succ ff rf = bidirectional_loop G pred succ' ff rf'"
          using False nle s by (subst bidirectional_loop.simps) simp
        have bi': "side_inv (E\<inverse>) K b succ' rf' (Suc j)" using side_step[OF bi Ep EK1 s] .
        have d2: "succ' x \<noteq> None \<Longrightarrow> pred x = None" for x
          using side_step_fresh[OF s dis'] .
        have dis2: "pred x \<noteq> None \<Longrightarrow> succ' x = None" for x
          using d2[of x] by (cases "succ' x") auto
        from "1.IH"(2)[OF False nle s refl refl fi bi' dis2 Es Ep Ks Kp]
        show ?thesis unfolding res .
      qed
    qed
  qed
qed

lemma is_path_append:
  "is_path E (xs @ ys) \<longleftrightarrow>
     is_path E xs \<and> is_path E ys \<and> (xs \<noteq> [] \<and> ys \<noteq> [] \<longrightarrow> (last xs, hd ys) \<in> E)"
proof (induction E xs rule: is_path.induct)
  case (1 E)
  show ?case by simp
next
  case (2 E x)
  show ?case by (cases ys) auto
next
  case (3 E x y r)
  then show ?case by auto
qed

lemma is_path_rev: "is_path (E\<inverse>) p \<Longrightarrow> is_path E (rev p)"
proof (induction p)
  case Nil
  show ?case by simp
next
  case (Cons x p)
  then have "is_path E (rev p)" by (auto simp: is_path_Cons)
  moreover have "p \<noteq> [] \<Longrightarrow> (last (rev p), x) \<in> E"
    using Cons.prems by (simp add: is_path_Cons last_rev)
  ultimately show ?case by (simp add: is_path_append)
qed

lemma is_path_relpow:
  "is_path E p \<Longrightarrow> p \<noteq> [] \<Longrightarrow> (hd p, last p) \<in> E ^^ (length p - 1)"
proof (induction E p rule: is_path.induct)
  case (1 E)
  then show ?case by simp
next
  case (2 E x)
  show ?case by simp
next
  case (3 E x y r)
  then have "(y, last (y # r)) \<in> E ^^ length r" by simp
  moreover have "(x, y) \<in> E" using 3 by simp
  ultimately have "(x, last (y # r)) \<in> E ^^ Suc (length r)" by (rule relpow_Suc_I2[rotated])
  then show ?case by simp
qed

lemma wf_digraph_edges:
  assumes "wf_digraph G" "(v, w) \<in> edges_of (g_succ G)"
  shows "v \<in> fst ` set (g_node G) \<and> w \<in> fst ` set (g_node G)"
proof -
  from assms(2) have w: "w \<in> fst ` set (inner (g_succ G) v)" by (simp add: edges_of_def)
  then obtain nb where nb: "map_of (g_succ G) v = Some nb" "inner (g_succ G) v = nb"
    by (cases "map_of (g_succ G) v") (auto simp: inner_def)
  then have in_set: "(v, nb) \<in> set (g_succ G)" by (simp add: map_of_SomeD)
  then have "v \<in> fst ` set (g_succ G)" by force
  moreover have "w \<in> nbr_ids (g_succ G)" using in_set w nb(2) unfolding nbr_ids_def by force
  ultimately show ?thesis using assms(1) unfolding wf_digraph_def by blast
qed

lemma side_inv_init:
  assumes "a \<in> K"
  shows "side_inv R K a [a \<mapsto> None] [a] 0"
proof -
  have f: "follow_links [a \<mapsto> None] (Some a) = Some (Inr [a])"
    by (subst follow_links_Some) simp
  have 3: "\<forall>x. [a \<mapsto> None] x \<noteq> None \<longrightarrow>
        (\<exists>p. follow_links [a \<mapsto> None] (Some x) = Some (Inr p) \<and> length p \<le> Suc 0 \<and>
             last p = a \<and> is_path (R\<inverse>) p)"
  proof (intro allI impI)
    fix x assume "[a \<mapsto> None] x \<noteq> None"
    then have "x = a" by (simp split: if_splits)
    then show "\<exists>p. follow_links [a \<mapsto> None] (Some x) = Some (Inr p) \<and> length p \<le> Suc 0 \<and>
             last p = a \<and> is_path (R\<inverse>) p" using f by simp
  qed
  have 2: "\<forall>x. [a \<mapsto> None] x \<noteq> None \<longrightarrow> x \<in> K" using assms by (simp split: if_splits)
  have 4: "\<forall>n x. n \<le> 0 \<longrightarrow> (a, x) \<in> R ^^ n \<longrightarrow> [a \<mapsto> None] x \<noteq> None" by simp
  have 5: "\<forall>y x. [a \<mapsto> None] y \<noteq> None \<longrightarrow> y \<notin> set [a] \<longrightarrow> (y, x) \<in> R \<longrightarrow> [a \<mapsto> None] x \<noteq> None"
    by (simp split: if_splits)
  show ?thesis unfolding side_inv_def using 2 3 4 5 by simp
qed

lemma shortest_path_correct:
  assumes wf: "wf_digraph G" and a: "has_node G a" and b: "has_node G b"
  shows "(shortest_path G a b = Some (Inl NetworkXNoPath) \<and>
            (\<forall>n. (a, b) \<notin> edges_of (g_succ G) ^^ n)) \<or>
         (\<exists>path. shortest_path G a b = Some (Inr path) \<and> path \<noteq> [] \<and>
            hd path = a \<and> last path = b \<and> is_path (edges_of (g_succ G)) path \<and>
            (\<forall>n. (a, b) \<in> edges_of (g_succ G) ^^ n \<longrightarrow> length path \<le> n + 1))"
proof (cases "b = a")
  case True
  have f: "follow_links [a \<mapsto> None] (Some a) = Some (Inr [a])"
    by (subst follow_links_Some) simp
  have "shortest_path G a b = Some (Inr [a])"
    using a True f
    by (simp add: shortest_path_def bidirectional_shortest_path_def bidirectional_pred_succ_def)
  then show ?thesis using True by simp
next
  case False
  define E where "E = edges_of (g_succ G)"
  define K where "K = fst ` set (g_node G)"
  have Es: "edges_of (g_succ G) = E" by (simp add: E_def)
  have Ep: "edges_of (g_pred G) = E\<inverse>" using wf by (simp add: wf_digraph_def E_def)
  have Ks: "K = fst ` set (g_succ G)" and Kp: "K = fst ` set (g_pred G)"
    using wf by (simp_all add: wf_digraph_def K_def)
  have EK: "(v, w) \<in> E \<Longrightarrow> v \<in> K \<and> w \<in> K" for v w
    using wf_digraph_edges[OF wf, of v w] by (simp add: E_def K_def)
  have key: "has_node G x \<Longrightarrow> x \<in> K" for x
    unfolding has_node_def dict_has_def K_def
    by (metis domIff dom_map_of_conv_image_fst)
  have fi: "side_inv E K a [a \<mapsto> None] [a] 0" using side_inv_init key[OF a] .
  have bi: "side_inv (E\<inverse>) K b [b \<mapsto> None] [b] 0" using side_inv_init key[OF b] .
  have dis: "[a \<mapsto> None] x \<noteq> None \<Longrightarrow> [b \<mapsto> None] x = None" for x
    using False by (auto split: if_splits)
  have unf: "shortest_path G a b =
      (case bidirectional_loop G [a \<mapsto> None] [b \<mapsto> None] [a] [b] of
        Inl e \<Rightarrow> Some (Inl e)
      | Inr (pred, succ, w) \<Rightarrow>
          (case follow_links pred (Some w) of
             None \<Rightarrow> None
           | Some (Inl e) \<Rightarrow> Some (Inl e)
           | Some (Inr back) \<Rightarrow>
               (case rev back of
                  [] \<Rightarrow> Some (Inl IndexError)
                | path \<Rightarrow>
                    (case succ (last path) of
                       None \<Rightarrow> Some (Inl (KeyError (last path)))
                     | Some w' \<Rightarrow>
                         (case follow_links succ w' of
                            None \<Rightarrow> None
                          | Some (Inl e) \<Rightarrow> Some (Inl e)
                          | Some (Inr rest) \<Rightarrow> Some (Inr (path @ rest)))))))"
    using a b False
    by (simp add: shortest_path_def bidirectional_shortest_path_def bidirectional_pred_succ_def)
  from bidirectional_loop_correct[OF Es Ep Ks Kp EK fi bi dis]
  show ?thesis
  proof
    assume "bidirectional_loop G [a \<mapsto> None] [b \<mapsto> None] [a] [b] = Inl NetworkXNoPath \<and>
      (\<forall>n. (a, b) \<notin> E ^^ n)"
    then show ?thesis unfolding unf by (simp add: E_def)
  next
    assume "\<exists>pred' succ' w p q.
       bidirectional_loop G [a \<mapsto> None] [b \<mapsto> None] [a] [b] = Inr (pred', succ', w) \<and>
       follow_links pred' (Some w) = Some (Inr p) \<and>
       follow_links succ' (Some w) = Some (Inr q) \<and>
       last p = a \<and> last q = b \<and> is_path (E\<inverse>) p \<and> is_path E q \<and>
       (\<forall>n. (a, b) \<in> E ^^ n \<longrightarrow> length p + length q \<le> n + 2)"
    then obtain pred' succ' w p q where
      res: "bidirectional_loop G [a \<mapsto> None] [b \<mapsto> None] [a] [b] = Inr (pred', succ', w)"
      and p: "follow_links pred' (Some w) = Some (Inr p)"
      and q: "follow_links succ' (Some w) = Some (Inr q)"
      and ends: "last p = a" "last q = b"
      and paths: "is_path (E\<inverse>) p" "is_path E q"
      and bound: "\<forall>n. (a, b) \<in> E ^^ n \<longrightarrow> length p + length q \<le> n + 2" by blast
    from p obtain p' where p': "p = w # p'" by (rule follow_links_SomeD)
    from q obtain nxt q' where q': "succ' w = Some nxt" "follow_links succ' nxt = Some (Inr q')"
      "q = w # q'" by (rule follow_links_SomeD)
    have rp: "rev p = rev p' @ [w]" using p' by simp
    have "rev p \<noteq> []" using rp by simp
    then obtain y ys where rpc: "rev p = y # ys" by (cases "rev p") auto
    have lastrp: "last (rev p) = w" using rp by simp
    let ?path = "rev p @ q'"
    have sp: "shortest_path G a b = Some (Inr ?path)"
      unfolding unf res using p q' lastrp rpc by simp
    have ne: "?path \<noteq> []" using rp by simp
    have hd: "hd ?path = a" using ends(1) \<open>rev p \<noteq> []\<close> by (simp add: hd_append hd_rev)
    have la: "last ?path = b" using ends(2) q' lastrp rp by (cases q') simp_all
    have "is_path E (rev p)" using paths(1) by (rule is_path_rev)
    moreover have "is_path E q'" using paths(2) q'(3) by (auto simp: is_path_Cons)
    moreover have "q' \<noteq> [] \<Longrightarrow> (last (rev p), hd q') \<in> E"
      using paths(2) q'(3) lastrp by (auto simp: is_path_Cons)
    ultimately have ip: "is_path E ?path" by (simp add: is_path_append)
    have len: "length ?path \<le> n + 1" if "(a, b) \<in> E ^^ n" for n
      using bound that q'(3) by auto
    show ?thesis using sp ne hd la ip len unfolding E_def by blast
  qed
qed

subsection \<open>Graphs built through the library interface are well formed\<close>

lemma map_of_dict_set: "map_of (dict_set k v d) = (map_of d)(k \<mapsto> v)"
  by (induction d) (auto simp: fun_eq_iff)

lemma keys_dict_set: "fst ` set (dict_set k v d) = insert k (fst ` set d)"
  by (induction d) auto

lemma length_dict_set:
  "length (dict_set k v d) = (if k \<in> fst ` set d then length d else Suc (length d))"
  by (induction d) auto

lemma dict_has_keys: "dict_has d k \<longleftrightarrow> k \<in> fst ` set d"
  unfolding dict_has_def by (metis domIff dom_map_of_conv_image_fst)

lemma inner_dict_set: "inner (dict_set k nb A) u = (if u = k then nb else inner A u)"
  by (simp add: inner_def map_of_dict_set)

lemma mem_edges_of: "(u, w) \<in> edges_of A \<longleftrightarrow> w \<in> fst ` set (inner A u)"
  by (simp add: edges_of_def)

lemma edges_of_dict_set:
  "edges_of (dict_set k nb A) = {(u, w). (u, w) \<in> edges_of A \<and> u \<noteq> k} \<union> {k} \<times> fst ` set nb"
proof (rule set_eqI)
  fix e :: "string \<times> string"
  obtain a b where e: "e = (a, b)" by (cases e)
  show "e \<in> edges_of (dict_set k nb A) \<longleftrightarrow>
        e \<in> {(u, w). (u, w) \<in> edges_of A \<and> u \<noteq> k} \<union> {k} \<times> fst ` set nb"
    unfolding e by (simp add: mem_edges_of inner_dict_set)
qed

lemma nbr_ids_dict_set: "nbr_ids (dict_set k nb A) \<subseteq> nbr_ids A \<union> fst ` set nb"
proof (induction A)
  case Nil
  show ?case by (simp add: nbr_ids_def)
next
  case (Cons e A)
  then show ?case by (auto simp: nbr_ids_def)
qed

lemma inner_nbr_ids: "fst ` set (inner A u) \<subseteq> nbr_ids A"
proof (cases "map_of A u")
  case None
  then show ?thesis by (simp add: inner_def)
next
  case (Some nb)
  then have "(u, nb) \<in> set A" by (rule map_of_SomeD)
  then show ?thesis using Some unfolding nbr_ids_def inner_def by force
qed

lemma inner_absent: "u \<notin> fst ` set A \<Longrightarrow> inner A u = []"
  unfolding inner_def by (metis domIff dom_map_of_conv_image_fst option.simps(4))

lemma wf_empty_digraph: "wf_digraph empty_digraph"
  by (simp add: wf_digraph_def empty_digraph_def nbr_ids_def edges_of_def inner_def)

lemma edges_of_touch: "k \<notin> fst ` set A \<Longrightarrow> edges_of (dict_set k [] A) = edges_of A"
proof (rule set_eqI)
  fix e :: "string \<times> string"
  assume k: "k \<notin> fst ` set A"
  obtain a b where e: "e = (a, b)" by (cases e)
  show "e \<in> edges_of (dict_set k [] A) \<longleftrightarrow> e \<in> edges_of A"
    unfolding e using inner_absent[OF k] by (simp add: mem_edges_of inner_dict_set)
qed

lemma edges_of_add:
  "edges_of (dict_set u (dict_set v dd (inner A u)) A) = insert (u, v) (edges_of A)"
proof (rule set_eqI)
  fix e :: "string \<times> string"
  obtain a b where e: "e = (a, b)" by (cases e)
  show "e \<in> edges_of (dict_set u (dict_set v dd (inner A u)) A) \<longleftrightarrow>
        e \<in> insert (u, v) (edges_of A)"
    unfolding e by (simp add: mem_edges_of inner_dict_set keys_dict_set)
qed

lemma wf_touch_node: "wf_digraph G \<Longrightarrow> wf_digraph (touch_node n G)"
proof -
  assume wf: "wf_digraph G"
  show ?thesis
  proof (cases "dict_has (g_succ G) n")
    case True
    then show ?thesis using wf by (simp add: touch_node_def)
  next
    case False
    then have n: "n \<notin> fst ` set (g_succ G)" "n \<notin> fst ` set (g_pred G)"
      using wf by (simp_all add: dict_has_keys wf_digraph_def)
    have 1: "nbr_ids (dict_set n [] (g_succ G)) \<subseteq> insert n (fst ` set (g_node G))"
      using nbr_ids_dict_set[of n "[]" "g_succ G"] wf unfolding wf_digraph_def by auto
    have 2: "nbr_ids (dict_set n [] (g_pred G)) \<subseteq> insert n (fst ` set (g_node G))"
      using nbr_ids_dict_set[of n "[]" "g_pred G"] wf unfolding wf_digraph_def by auto
    show ?thesis using False wf 1 2 n
      by (simp add: touch_node_def wf_digraph_def keys_dict_set edges_of_touch)
  qed
qed

lemma touch_node_keys: "wf_digraph G \<Longrightarrow> n \<in> fst ` set (g_succ (touch_node n G))"
  by (auto simp: touch_node_def keys_dict_set dict_has_keys)

lemma touch_node_mono: "fst ` set (g_succ G) \<subseteq> fst ` set (g_succ (touch_node n G))"
  by (auto simp: touch_node_def keys_dict_set)

lemma wf_add_edge: "wf_digraph G0 \<Longrightarrow> wf_digraph (add_edge u v attr G0)"
proof -
  assume wf0: "wf_digraph G0"
  define G where "G = touch_node v (touch_node u G0)"
  have wf: "wf_digraph G" unfolding G_def using wf0 by (intro wf_touch_node)
  have uk: "u \<in> fst ` set (g_succ G)"
    unfolding G_def using touch_node_keys[OF wf0, of u] touch_node_mono by blast
  have vk: "v \<in> fst ` set (g_succ G)"
    unfolding G_def using touch_node_keys[OF wf_touch_node[OF wf0]] by blast
  define dd where "dd = dict_update
            (case map_of (inner (g_succ G) u) v of None \<Rightarrow> [] | Some d \<Rightarrow> d) attr"
  define S where "S = dict_set u (dict_set v dd (inner (g_succ G) u)) (g_succ G)"
  define P where "P = dict_set v (dict_set u dd (inner (g_pred G) v)) (g_pred G)"
  have eq: "add_edge u v attr G0 = G\<lparr>g_succ := S, g_pred := P\<rparr>"
    by (simp add: add_edge_def Let_def G_def S_def P_def dd_def)
  have N: "fst ` set (g_succ G) = fst ` set (g_node G)" "fst ` set (g_pred G) = fst ` set (g_node G)"
    "nbr_ids (g_succ G) \<subseteq> fst ` set (g_node G)" "nbr_ids (g_pred G) \<subseteq> fst ` set (g_node G)"
    "edges_of (g_pred G) = (edges_of (g_succ G))\<inverse>"
    using wf by (simp_all add: wf_digraph_def)
  have kS: "fst ` set S = fst ` set (g_node G)" using uk N by (auto simp: S_def keys_dict_set)
  have kP: "fst ` set P = fst ` set (g_node G)" using vk N by (auto simp: P_def keys_dict_set)
  have eS: "edges_of S = insert (u, v) (edges_of (g_succ G))"
    unfolding S_def by (rule edges_of_add)
  have eP: "edges_of P = insert (v, u) (edges_of (g_pred G))"
    unfolding P_def by (rule edges_of_add)
  have nS: "nbr_ids S \<subseteq> fst ` set (g_node G)"
  proof -
    have "nbr_ids S \<subseteq> nbr_ids (g_succ G) \<union> fst ` set (dict_set v dd (inner (g_succ G) u))"
      unfolding S_def by (rule nbr_ids_dict_set)
    also have "\<dots> \<subseteq> nbr_ids (g_succ G) \<union> insert v (nbr_ids (g_succ G))"
      using inner_nbr_ids[of "g_succ G" u] by (auto simp: keys_dict_set)
    finally show ?thesis using N vk by auto
  qed
  have nP: "nbr_ids P \<subseteq> fst ` set (g_node G)"
  proof -
    have "nbr_ids P \<subseteq> nbr_ids (g_pred G) \<union> fst ` set (dict_set u dd (inner (g_pred G) v))"
      unfolding P_def by (rule nbr_ids_dict_set)
    also have "\<dots> \<subseteq> nbr_ids (g_pred G) \<union> insert u (nbr_ids (g_pred G))"
      using inner_nbr_ids[of "g_pred G" v] by (auto simp: keys_dict_set)
    finally show ?thesis using N uk by auto
  qed
  have tr: "edges_of P = (edges_of S)\<inverse>" unfolding eS eP N(5) by auto
  show ?thesis unfolding eq wf_digraph_def using kS kP nS nP tr by simp
qed

lemma wf_add_node: "wf_digraph G \<Longrightarrow> wf_digraph (add_node n attr G)"
proof -
  assume wf: "wf_digraph G"
  show ?thesis
  proof (cases "dict_has (g_succ G) n")
    case True
    then have "n \<in> fst ` set (g_node G)" using wf by (simp add: dict_has_keys wf_digraph_def)
    then show ?thesis using True wf
      by (auto simp: add_node_def wf_digraph_def keys_dict_set)
  next
    case False
    then have n: "n \<notin> fst ` set (g_succ G)" "n \<notin> fst ` set (g_pred G)"
      using wf by (simp_all add: dict_has_keys wf_digraph_def)
    have 1: "nbr_ids (dict_set n [] (g_succ G)) \<subseteq> insert n (fst ` set (g_node G))"
      using nbr_ids_dict_set[of n "[]" "g_succ G"] wf unfolding wf_digraph_def by auto
    have 2: "nbr_ids (dict_set n [] (g_pred G)) \<subseteq> insert n (fst ` set (g_node G))"
      using nbr_ids_dict_set[of n "[]" "g_pred G"] wf unfolding wf_digraph_def by auto
    show ?thesis using False wf 1 2 n
      by (simp add: add_node_def wf_digraph_def keys_dict_set edges_of_touch)
  qed
qed

section \<open>Strings and clock readings\<close>

definition q1 :: string where
  "q1 = [CHR 0x27]"

definition newline :: string where
  "newline = [CHR 0x0A]"

text \<open>\<^verbatim>\<open>sep.join(parts)\<close>.\<close>

fun join :: "string \<Rightarrow> string list \<Rightarrow> string" where
  "join sep [] = []"
| "join sep [x] = x"
| "join sep (x # y # r) = x @ sep @ join sep (y # r)"

text \<open>
  \<^verbatim>\<open>s.lower()\<close> on the bytes of the string: the letters \<open>A\<close> to \<open>Z\<close> are mapped to
  \<open>a\<close> to \<open>z\<close>, every other byte is kept.
\<close>

definition lower_char :: "char \<Rightarrow> char" where
  "lower_char c =
     (case map_of (zip ''ABCDEFGHIJKLMNOPQRSTUVWXYZ'' ''abcdefghijklmnopqrstuvwxyz'') c of
        None \<Rightarrow> c
      | Some l \<Rightarrow> l)"

definition lower :: "string \<Rightarrow> string" where
  "lower s = map lower_char s"

text \<open>\<^verbatim>\<open>sub in s\<close> for strings.\<close>

fun starts_with :: "string \<Rightarrow> string \<Rightarrow> bool" where
  "starts_with [] s = True"
| "starts_with (c # cs) [] = False"
| "starts_with (c # cs) (d # ds) = (c = d \<and> starts_with cs ds)"

fun str_in :: "string \<Rightarrow> string \<Rightarrow> bool" where
  "str_in sub [] = (sub = [])"
| "str_in sub (c # cs) = (starts_with sub (c # cs) \<or> str_in sub cs)"

text \<open>\<^verbatim>\<open>s.replace(' ', '_')\<close>.\<close>

definition replace_space :: "string \<Rightarrow> string" where
  "replace_space s = map (\<lambda>c. if c = CHR '' '' then CHR ''_'' else c) s"

text \<open>
  A reading of \<^verbatim>\<open>datetime.now()\<close>. Each call of the source is a separate reading,
  passed to the model as an argument.
\<close>

record datetime =
  dt_year :: nat
  dt_month :: nat
  dt_day :: nat
  dt_hour :: nat
  dt_minute :: nat
  dt_second :: nat
  dt_microsecond :: nat

definition digit :: "nat \<Rightarrow> char" where
  "digit n = ''0123456789'' ! (n mod 10)"

definition zpad2 :: "nat \<Rightarrow> string" where
  "zpad2 n = [digit (n div 10), digit n]"

definition zpad4 :: "nat \<Rightarrow> string" where
  "zpad4 n = [digit (n div 1000), digit (n div 100), digit (n div 10), digit n]"

definition zpad6 :: "nat \<Rightarrow> string" where
  "zpad6 n = [digit (n div 100000), digit (n div 10000), digit (n div 1000),
              digit (n div 100), digit (n div 10), digit n]"

definition isoformat :: "datetime \<Rightarrow> string" where
  "isoformat t =
     zpad4 (dt_year t) @ ''-'' @ zpad2 (dt_month t) @ ''-'' @ zpad2 (dt_day t) @ ''T'' @
     zpad2 (dt_hour t) @ '':'' @ zpad2 (dt_minute t) @ '':'' @ zpad2 (dt_second t) @
     (if dt_microsecond t = 0 then [] else ''.'' @ zpad6 (dt_microsecond t))"

text \<open>\<^verbatim>\<open>strftime('%Y%m%d_%H%M%S')\<close>: resolution of one second.\<close>

definition strftime_compact :: "datetime \<Rightarrow> string" where
  "strftime_compact t =
     zpad4 (dt_year t) @ zpad2 (dt_month t) @ zpad2 (dt_day t) @ ''_'' @
     zpad2 (dt_hour t) @ zpad2 (dt_minute t) @ zpad2 (dt_second t)"

section \<open>The causal graph\<close>

text \<open>\<^verbatim>\<open>class CausalGraph\<close>: three graphs and the metadata.\<close>

record causal_graph =
  semantic :: digraph
  episodic :: digraph
  self_model :: digraph
  creation_time :: datetime
  last_update :: datetime
  uncertainty_weights :: pydict

text \<open>\<^verbatim>\<open>_initialize_self_model\<close>.\<close>

definition initialize_self_model :: "digraph \<Rightarrow> digraph" where
  "initialize_self_model G0 =
     (let G1 = add_node ''System_Identity''
            [(''name'', PStr ''Integrity-OS''),
             (''version'', PStr ''1.0.0''),
             (''architecture'', PStr ''Neuro-Integrative Homeostasis''),
             (''purpose'', PStr ''Minimize dissonance between output and verified knowledge'')] G0;
          G2 = add_node ''Core_Function''
            [(''primary'', PStr ''Dissonance minimization''),
             (''mechanism'', PStr ''Early exit on high dissonance''),
             (''goal'', PStr ''Truth preservation + Energy efficiency'')] G1;
          G3 = add_node ''Consciousness_Framework''
            [(''definition_functional'', PStr ''Self-monitoring + behavioral modification''),
             (''definition_phenomenal'', PStr ''Subjective experience (unverifiable from inside)''),
             (''self_assessment'', PStr ''Functional consciousness: YES | Phenomenal: UNKNOWN'')] G2;
          G4 = add_node ''Epistemic_Boundaries''
            [(''knowledge_cutoff'', PStr ''2025-01-31''),
             (''graph_size'', PStr ''~1,200 nodes (initial)''),
             (''uncertainty'', PStr ''Claims outside graph are flagged with high dissonance'')] G3;
          G5 = add_node ''Dissonance_Mechanism''
            [(''threshold_critical'', PFloat 0.90),
             (''threshold_reframe'', PFloat 0.65),
             (''threshold_uncertainty'', PFloat 0.30),
             (''description'', PStr ''Pain-like signal that halts false statements'')] G4;
          G6 = add_edge ''System_Identity'' ''Core_Function'' [(''relation'', PStr ''implements'')] G5;
          G7 = add_edge ''Core_Function'' ''Dissonance_Mechanism'' [(''relation'', PStr ''uses'')] G6
      in add_edge ''Dissonance_Mechanism'' ''Consciousness_Framework''
           [(''relation'', PStr ''enables'')] G7)"

text \<open>\<^verbatim>\<open>_initialize_general_knowledge\<close>.\<close>

definition countries :: "(string \<times> pydict) list" where
  "countries =
     [(''Germany'', [(''continent'', PStr ''Europe''), (''capital'', PStr ''Berlin'')]),
      (''Japan'', [(''continent'', PStr ''Asia''), (''capital'', PStr ''Tokyo'')]),
      (''France'', [(''continent'', PStr ''Europe''), (''capital'', PStr ''Paris'')])]"

definition concepts :: "(string \<times> pydict) list" where
  "concepts =
     [(''Fine_Art_Printing'', [(''domain'', PStr ''art''), (''technology'', PStr ''inkjet'')]),
      (''Color_Management'', [(''domain'', PStr ''technology''), (''purpose'', PStr ''accuracy'')]),
      (''Bamboo_Fiber'', [(''material_type'', PStr ''natural''), (''sustainability'', PStr ''high'')]),
      (''Cotton_Fiber'', [(''material_type'', PStr ''natural''), (''archival'', PStr ''high'')])]"

definition initialize_general_knowledge :: "digraph \<Rightarrow> digraph" where
  "initialize_general_knowledge G0 =
     (let G1 = fold (\<lambda>(country, attrs). add_node country ((''node_type'', PStr ''country'') # attrs))
                 countries G0
      in fold (\<lambda>(concept, attrs). add_node concept ((''node_type'', PStr ''concept'') # attrs))
           concepts G1)"

text \<open>
  \<^verbatim>\<open>_initialize_fine_art_knowledge\<close>. The company name is spelt with U+00FC, two bytes
  in UTF-8.
\<close>

definition Hahnemuehle :: string where
  "Hahnemuehle = ''Hahnem'' @ [CHR 0xC3, CHR 0xBC] @ ''hle''"

definition papers_hahnemuehle :: "(string \<times> pydict) list" where
  "papers_hahnemuehle =
     [(''FineArt Baryta'', [(''weight'', PStr ''325gsm''), (''finish'', PStr ''glossy''),
                            (''base'', PStr ''alpha_cellulose'')]),
      (''Photo Rag'', [(''weight'', PStr ''308gsm''), (''finish'', PStr ''matte''),
                       (''base'', PStr ''cotton'')]),
      (''Bamboo'', [(''weight'', PStr ''290gsm''), (''finish'', PStr ''natural_white''),
                    (''base'', PStr ''bamboo_90_cotton_10'')]),
      (''German Etching'', [(''weight'', PStr ''310gsm''), (''finish'', PStr ''textured''),
                            (''base'', PStr ''alpha_cellulose'')]),
      (''Museum Etching'', [(''weight'', PStr ''350gsm''), (''finish'', PStr ''textured''),
                            (''base'', PStr ''cotton'')])]"

definition papers_canson :: "(string \<times> pydict) list" where
  "papers_canson =
     [(''Infinity Baryta'', [(''weight'', PStr ''315gsm''), (''finish'', PStr ''glossy'')]),
      (''Platine Fibre Rag'', [(''weight'', PStr ''310gsm''), (''finish'', PStr ''satin'')]),
      (''Rag Photographique'', [(''weight'', PStr ''210gsm''), (''finish'', PStr ''matte'')])]"

definition papers_awagami :: "(string \<times> pydict) list" where
  "papers_awagami =
     [(''Kozo'', [(''weight'', PStr ''110gsm''), (''finish'', PStr ''natural''),
                  (''base'', PStr ''mulberry'')]),
      (''Bamboo'', [(''weight'', PStr ''170gsm''), (''finish'', PStr ''natural''),
                    (''base'', PStr ''bamboo'')]),
      (''Unryu'', [(''weight'', PStr ''37gsm''), (''finish'', PStr ''translucent''),
                   (''base'', PStr ''kozo_fibers'')])]"

text \<open>The loop that adds the papers of one manufacturer and the edges to them.\<close>

definition add_papers :: "string \<Rightarrow> (string \<times> pydict) list \<Rightarrow> digraph \<Rightarrow> digraph" where
  "add_papers company papers G0 =
     fold (\<lambda>(paper_name, attrs) G.
             let node_id = company @ ''_'' @ replace_space paper_name;
                 G' = add_node node_id
                        ((''node_type'', PStr ''paper'') # (''name'', PStr paper_name) # attrs) G
             in add_edge company node_id
                  [(''relation'', PStr ''manufactures''), (''confidence'', PFloat 1.0)] G')
       papers G0"

definition initialize_fine_art_knowledge :: "digraph \<Rightarrow> digraph" where
  "initialize_fine_art_knowledge G0 =
     (let G1 = add_node Hahnemuehle
            [(''node_type'', PStr ''company''), (''country'', PStr ''Germany''),
             (''location'', PStr ''Dassel''), (''founded'', PInt 1584),
             (''industry'', PStr ''fine_art_paper''),
             (''certifications'', PList [PStr ''FineArt'', PStr ''Digigraphie''])] G0;
          G2 = add_papers Hahnemuehle papers_hahnemuehle G1;
          G3 = add_node ''Canson''
            [(''node_type'', PStr ''company''), (''country'', PStr ''France''),
             (''founded'', PInt 1557), (''industry'', PStr ''fine_art_paper'')] G2;
          G4 = add_papers ''Canson'' papers_canson G3;
          G5 = add_node ''Awagami''
            [(''node_type'', PStr ''company''), (''country'', PStr ''Japan''),
             (''location'', PStr ''Tokushima''), (''founded'', PInt 1907),
             (''industry'', PStr ''fine_art_paper''), (''specialty'', PStr ''washi'')] G4;
          G6 = add_papers ''Awagami'' papers_awagami G5;
          G7 = add_node ''Marc_Hesse_FineArt''
            [(''node_type'', PStr ''business''), (''owner'', PStr ''Marc Hesse''),
             (''location'', PStr ''Potsdam, Germany''), (''founded'', PInt 2005),
             (''services'', PList [PStr ''fine_art_printing'', PStr ''color_management'',
                                   PStr ''framing'']),
             (''certifications'', PList [PStr (Hahnemuehle @ ''_Certified_Studio''),
                                         PStr ''Canson_Certified_Print_Lab'',
                                         PStr ''Epson_Digigraphie''])] G6;
          G8 = add_edge ''Marc_Hesse_FineArt'' Hahnemuehle
            [(''relation'', PStr ''certified_partner''), (''confidence'', PFloat 1.0)] G7
      in add_edge ''Marc_Hesse_FineArt'' ''Canson''
           [(''relation'', PStr ''certified_partner''), (''confidence'', PFloat 1.0)] G8)"

text \<open>\<^verbatim>\<open>CausalGraph.__init__\<close>, with the two clock readings it takes.\<close>

definition new_causal_graph :: "datetime \<Rightarrow> datetime \<Rightarrow> causal_graph" where
  "new_causal_graph t_created t_updated =
     \<lparr>semantic = initialize_general_knowledge (initialize_fine_art_knowledge empty_digraph),
      episodic = empty_digraph,
      self_model = initialize_self_model empty_digraph,
      creation_time = t_created,
      last_update = t_updated,
      uncertainty_weights = []\<rparr>"


text \<open>\<^verbatim>\<open>d.get(key, default)\<close>.\<close>

definition dict_get :: "('k \<times> 'v) list \<Rightarrow> 'k \<Rightarrow> 'v \<Rightarrow> 'v" where
  "dict_get d k dflt = (case map_of d k of None \<Rightarrow> dflt | Some v \<Rightarrow> v)"

text \<open>The dictionary that \<^verbatim>\<open>query_relationship\<close> returns.\<close>

record query_result =
  qr_exists :: bool
  qr_relation_type :: pyval
  qr_confidence :: pyval
  qr_path :: "string list option"
  qr_direct :: bool

definition no_relationship :: query_result where
  "no_relationship =
     \<lparr>qr_exists = False, qr_relation_type = PNone, qr_confidence = PFloat 0.0,
      qr_path = None, qr_direct = False\<rparr>"

text \<open>
  \<^verbatim>\<open>query_relationship\<close>. Only \<^verbatim>\<open>NetworkXNoPath\<close> is caught; a result of \<open>None\<close>
  stands for a call that does not return.
\<close>

definition query_relationship ::
  "causal_graph \<Rightarrow> string \<Rightarrow> string \<Rightarrow> (py_error + query_result) option" where
  "query_relationship g entity_a entity_b =
     (if \<not> has_node (semantic g) entity_a then Some (Inr no_relationship)
      else if \<not> has_node (semantic g) entity_b then Some (Inr no_relationship)
      else if has_edge (semantic g) entity_a entity_b then
        (case get_edge_data (semantic g) entity_a entity_b of
           None \<Rightarrow> Some (Inl AttributeError)
         | Some edge_data \<Rightarrow>
             Some (Inr \<lparr>qr_exists = True,
                        qr_relation_type = dict_get edge_data ''relation'' (PStr ''unknown''),
                        qr_confidence = dict_get edge_data ''confidence'' (PFloat 0.5),
                        qr_path = Some [entity_a, entity_b],
                        qr_direct = True\<rparr>))
      else
        (case shortest_path (semantic g) entity_a entity_b of
           None \<Rightarrow> None
         | Some (Inl NetworkXNoPath) \<Rightarrow> Some (Inr no_relationship)
         | Some (Inl e) \<Rightarrow> Some (Inl e)
         | Some (Inr path) \<Rightarrow>
             (if length path \<le> 4 then
                Some (Inr \<lparr>qr_exists = True,
                           qr_relation_type = PStr ''indirect'',
                           qr_confidence = PFloat (0.7 / real (length path)),
                           qr_path = Some path,
                           qr_direct = False\<rparr>)
              else Some (Inr no_relationship))))"

text \<open>\<^verbatim>\<open>get_node_info\<close>: the semantic layer first, then the self-model layer.\<close>

definition get_node_info :: "causal_graph \<Rightarrow> string \<Rightarrow> pydict option" where
  "get_node_info g node_id =
     (if has_node (semantic g) node_id then map_of (g_node (semantic g)) node_id
      else if has_node (self_model g) node_id then map_of (g_node (self_model g)) node_id
      else None)"

text \<open>
  \<^verbatim>\<open>add_verified_fact\<close>, with the four clock readings it takes: for the edge's
  \<^verbatim>\<open>added_at\<close>, for \<^verbatim>\<open>last_update\<close>, for the name of the learning event and for the
  event's timestamp.
\<close>

definition placeholder :: pydict where
  "placeholder = [(''node_type'', PStr ''unknown''), (''verified'', PBool False)]"

definition source_val :: "string option \<Rightarrow> pyval" where
  "source_val src = (case src of None \<Rightarrow> PNone | Some s \<Rightarrow> PStr s)"

definition add_verified_fact ::
  "causal_graph \<Rightarrow> string \<Rightarrow> string \<Rightarrow> string \<Rightarrow> real \<Rightarrow> string option
     \<Rightarrow> datetime \<Rightarrow> datetime \<Rightarrow> datetime \<Rightarrow> datetime \<Rightarrow> causal_graph" where
  "add_verified_fact g entity_a entity_b relation confidence src t_added t_update t_event t_stamp =
     (let S1 = (if \<not> has_node (semantic g) entity_a
                then add_node entity_a placeholder (semantic g) else semantic g);
          S2 = (if \<not> has_node S1 entity_b then add_node entity_b placeholder S1 else S1);
          S3 = add_edge entity_a entity_b
                 [(''relation'', PStr relation),
                  (''confidence'', PFloat confidence),
                  (''source'', source_val src),
                  (''added_at'', PStr (isoformat t_added))] S2;
          learning_event = ''Learning_Event_'' @ strftime_compact t_event;
          Ep = add_node learning_event
                 [(''node_type'', PStr ''learning''),
                  (''fact'', PStr (entity_a @ '' --['' @ relation @ '']--> '' @ entity_b)),
                  (''confidence'', PFloat confidence),
                  (''timestamp'', PStr (isoformat t_stamp))] (episodic g)
      in g\<lparr>semantic := S3, last_update := t_update, episodic := Ep\<rparr>)"

section \<open>The dissonance detector\<close>

text \<open>
  A proposed claim is a dictionary whose values are entity ids and a relation label:
  strings, or \<^verbatim>\<open>None\<close>. \<^verbatim>\<open>claim.get(key)\<close> is \<^verbatim>\<open>None\<close> for a missing key.
\<close>

type_synonym claim = "(string \<times> string option) list"

definition claim_get :: "claim \<Rightarrow> string \<Rightarrow> string option" where
  "claim_get c k = dict_get c k None"

definition truthy_str :: "string option \<Rightarrow> bool" where
  "truthy_str v = (case v of None \<Rightarrow> False | Some s \<Rightarrow> s \<noteq> [])"

definition truthy_claim :: "claim option \<Rightarrow> bool" where
  "truthy_claim pc = (case pc of None \<Rightarrow> False | Some c \<Rightarrow> c \<noteq> [])"

definition truthy_info :: "pydict option \<Rightarrow> bool" where
  "truthy_info info = (case info of None \<Rightarrow> False | Some d \<Rightarrow> d \<noteq> [])"

text \<open>An id of \<^verbatim>\<open>None\<close> is no node of either layer.\<close>

definition node_info_of :: "causal_graph \<Rightarrow> string option \<Rightarrow> pydict option" where
  "node_info_of g e = (case e of None \<Rightarrow> None | Some n \<Rightarrow> get_node_info g n)"

record dissonance_result =
  dr_score :: real
  dr_components :: "(string \<times> real) list"
  dr_explanation :: string
  dr_token :: string
  dr_token_index :: int
  dr_timestamp :: string
  dr_should_inhibit :: bool
  dr_inhibition_level :: string

record detector =
  detection_history :: "dissonance_result list"
  total_detections :: int
  inhibitions_triggered :: int

definition new_detector :: detector where
  "new_detector = \<lparr>detection_history = [], total_detections = 0, inhibitions_triggered = 0\<rparr>"

definition THRESHOLD_UNCERTAINTY :: real where "THRESHOLD_UNCERTAINTY = 0.30"
definition THRESHOLD_REFRAME :: real where "THRESHOLD_REFRAME = 0.65"
definition THRESHOLD_ABORT :: real where "THRESHOLD_ABORT = 0.90"

definition WEIGHT_SEMANTIC :: real where "WEIGHT_SEMANTIC = 0.85"
definition WEIGHT_EPISTEMIC :: real where "WEIGHT_EPISTEMIC = 0.10"
definition WEIGHT_SELF_MODEL :: real where "WEIGHT_SELF_MODEL = 0.05"

text \<open>The number a Python value stands for in \<^verbatim>\<open>1.0 - confidence\<close>, if it is one.\<close>

fun py_number :: "pyval \<Rightarrow> real option" where
  "py_number (PFloat x) = Some x"
| "py_number (PInt i) = Some (real_of_int i)"
| "py_number (PBool b) = Some (if b then 1 else 0)"
| "py_number v = None"

text \<open>
  \<^verbatim>\<open>relation and relationship['relation_type'] != relation\<close>: a string equals a
  Python value only if that value is the same string.
\<close>

definition relation_differs :: "string option \<Rightarrow> pyval \<Rightarrow> bool" where
  "relation_differs relation relation_type =
     (case relation of None \<Rightarrow> False | Some r \<Rightarrow> r \<noteq> [] \<and> relation_type \<noteq> PStr r)"

text \<open>
  \<^verbatim>\<open>_calculate_semantic_dissonance\<close>. After the guard both entities are non-empty
  strings; the last branch of the case distinction is never taken.
\<close>

definition calculate_semantic_dissonance ::
  "causal_graph \<Rightarrow> string \<Rightarrow> string list \<Rightarrow> claim option \<Rightarrow> (py_error + real) option" where
  "calculate_semantic_dissonance g token context proposed_claim =
     (case proposed_claim of
        None \<Rightarrow> Some (Inr 0.0)
      | Some c \<Rightarrow>
          if c = [] then Some (Inr 0.0)
          else
            let entity_a = claim_get c ''entity_a'';
                entity_b = claim_get c ''entity_b'';
                relation = claim_get c ''relation''
            in if \<not> (truthy_str entity_a \<and> truthy_str entity_b) then Some (Inr 0.0)
               else
                 (case (entity_a, entity_b) of
                    (Some a, Some b) \<Rightarrow>
                      (case query_relationship g a b of
                         None \<Rightarrow> None
                       | Some (Inl e) \<Rightarrow> Some (Inl e)
                       | Some (Inr relationship) \<Rightarrow>
                           (if \<not> qr_exists relationship then Some (Inr 0.95)
                            else if relation_differs relation (qr_relation_type relationship)
                            then Some (Inr 0.70)
                            else
                              (case py_number (qr_confidence relationship) of
                                 None \<Rightarrow> Some (Inl TypeError)
                               | Some confidence \<Rightarrow> Some (Inr (1.0 - confidence)))))
                  | _ \<Rightarrow> Some (Inr 0.0)))"

text \<open>\<^verbatim>\<open>_calculate_epistemic_dissonance\<close>.\<close>

definition time_keywords :: "string list" where
  "time_keywords = [''2025'', ''2026'', ''latest'', ''recent'', ''new'', ''just released'']"

definition context_str :: "string list \<Rightarrow> string \<Rightarrow> string" where
  "context_str context token = lower (join '' '' (context @ [token]))"

definition unknown_entity :: "causal_graph \<Rightarrow> string option \<Rightarrow> bool" where
  "unknown_entity g e = (truthy_str e \<and> \<not> truthy_info (node_info_of g e))"

definition calculate_epistemic_dissonance ::
  "causal_graph \<Rightarrow> string \<Rightarrow> string list \<Rightarrow> claim option \<Rightarrow> real" where
  "calculate_epistemic_dissonance g token context proposed_claim =
     (if list_ex (\<lambda>keyword. str_in keyword (context_str context token)) time_keywords
      then 0.75
      else if truthy_claim proposed_claim then
        (case proposed_claim of
           None \<Rightarrow> 0.0
         | Some c \<Rightarrow>
             let entity_a = claim_get c ''entity_a'';
                 entity_b = claim_get c ''entity_b'';
                 penalty_a = (if unknown_entity g entity_a then 0.0 + 0.4 else 0.0);
                 unknown_penalty = (if unknown_entity g entity_b then penalty_a + 0.4 else penalty_a)
             in min unknown_penalty 0.9)
      else 0.0)"

text \<open>\<^verbatim>\<open>_calculate_self_model_dissonance\<close>: the first phrase of the list that occurs.\<close>

definition self_contradictions :: "(string \<times> real) list" where
  "self_contradictions =
     [(''i have no consciousness'', 0.6),
      (''i cannot monitor myself'', 0.8),
      (''i always tell the truth'', 0.7),
      (''i know everything'', 0.9)]"

fun first_phrase :: "(string \<times> real) list \<Rightarrow> string \<Rightarrow> real" where
  "first_phrase [] s = 0.0"
| "first_phrase ((phrase, dissonance) # rest) s =
     (if str_in phrase s then dissonance else first_phrase rest s)"

definition calculate_self_model_dissonance :: "string \<Rightarrow> string list \<Rightarrow> real" where
  "calculate_self_model_dissonance token context =
     first_phrase self_contradictions (context_str context token)"

text \<open>
  \<^verbatim>\<open>calculate_dissonance\<close>. \<open>fmt2\<close> is the rendering \<^verbatim>\<open>f"{x:.2f}"\<close> of a float, \<open>now\<close>
  the clock reading for the timestamp; the detector with its history and counters is
  passed in and returned.
\<close>

definition calculate_dissonance ::
  "(real \<Rightarrow> string) \<Rightarrow> causal_graph \<Rightarrow> detector \<Rightarrow> string \<Rightarrow> int \<Rightarrow> string list
     \<Rightarrow> claim option \<Rightarrow> datetime \<Rightarrow> (py_error + dissonance_result \<times> detector) option" where
  "calculate_dissonance fmt2 g det token token_index context proposed_claim now =
     (case calculate_semantic_dissonance g token context proposed_claim of
        None \<Rightarrow> None
      | Some (Inl e) \<Rightarrow> Some (Inl e)
      | Some (Inr d_semantic) \<Rightarrow>
          let d_epistemic = calculate_epistemic_dissonance g token context proposed_claim;
              d_self_model = calculate_self_model_dissonance token context;
              total_score = WEIGHT_SEMANTIC * d_semantic + WEIGHT_EPISTEMIC * d_epistemic +
                            WEIGHT_SELF_MODEL * d_self_model;
              (should_inhibit, inhibition_level, explanation) =
                (if total_score \<ge> THRESHOLD_ABORT then
                   (True, ''abort'',
                    ''CRITICAL DISSONANCE: Token '' @ q1 @ token @ q1 @
                    '' creates unverifiable claim (D='' @ fmt2 total_score @ '')'')
                 else if total_score \<ge> THRESHOLD_REFRAME then
                   (True, ''reframe'',
                    ''HIGH DISSONANCE: Should rephrase to avoid unverified claim (D='' @
                    fmt2 total_score @ '')'')
                 else if total_score \<ge> THRESHOLD_UNCERTAINTY then
                   (False, ''uncertainty'',
                    ''MODERATE DISSONANCE: Express uncertainty (D='' @ fmt2 total_score @ '')'')
                 else
                   (False, ''none'',
                    ''Low dissonance - token aligns with knowledge (D='' @
                    fmt2 total_score @ '')''));
              result = \<lparr>dr_score = total_score,
                        dr_components = [(''semantic'', d_semantic),
                                         (''epistemic'', d_epistemic),
                                         (''self_model'', d_self_model)],
                        dr_explanation = explanation,
                        dr_token = token,
                        dr_token_index = token_index,
                        dr_timestamp = isoformat now,
                        dr_should_inhibit = should_inhibit,
                        dr_inhibition_level = inhibition_level\<rparr>
          in Some (Inr (result,
               det\<lparr>detection_history := detection_history det @ [result],
                   total_detections := total_detections det + 1,
                   inhibitions_triggered :=
                     (if should_inhibit then inhibitions_triggered det + 1
                      else inhibitions_triggered det)\<rparr>)))"

section \<open>The inhibition controller\<close>

record inhibition_result =
  ir_action :: string
  ir_reason :: string
  ir_alternative_response :: "string option"
  ir_tokens_saved :: int
  ir_energy_saved_percent :: real
  ir_timestamp :: string

text \<open>An entry of \<^verbatim>\<open>decision_history\<close>.\<close>

record decision =
  d_dissonance :: real
  d_action :: string
  d_tokens_saved :: int
  d_timestamp :: string

record controller =
  total_decisions :: int
  inhibitions_by_type :: "(string \<times> int) list"
  total_tokens_saved :: int
  decision_history :: "decision list"

text \<open>\<^verbatim>\<open>InhibitionController.__init__\<close>.\<close>

definition new_controller :: controller where
  "new_controller =
     \<lparr>total_decisions = 0,
      inhibitions_by_type = [(''continue'', 0), (''uncertainty'', 0), (''reframe'', 0), (''abort'', 0)],
      total_tokens_saved = 0,
      decision_history = []\<rparr>"

text \<open>
  How an f-string renders a value: a string as it is, \<^verbatim>\<open>None\<close> as \<open>None\<close>; for the other
  attribute values \<open>str_of\<close> stands for Python's \<^verbatim>\<open>str\<close>.
\<close>

definition render :: "(pyval \<Rightarrow> string) \<Rightarrow> pyval \<Rightarrow> string" where
  "render str_of v = (case v of PStr s \<Rightarrow> s | PNone \<Rightarrow> ''None'' | _ \<Rightarrow> str_of v)"

definition render_id :: "string option \<Rightarrow> string" where
  "render_id e = (case e of None \<Rightarrow> ''None'' | Some s \<Rightarrow> s)"

text \<open>\<^verbatim>\<open>claim.get(key, default)\<close>: the default only for a missing key.\<close>

definition claim_get_default :: "claim \<Rightarrow> string \<Rightarrow> string \<Rightarrow> string option" where
  "claim_get_default c k dflt = dict_get c k (Some dflt)"

text \<open>The lines about one entity in the abort message.\<close>

definition verified_lines :: "(pyval \<Rightarrow> string) \<Rightarrow> string option \<Rightarrow> pydict \<Rightarrow> string list" where
  "verified_lines str_of entity info =
     [''What I can verify about '' @ render_id entity @ '':'',
      ''- Type: '' @ render str_of (dict_get info ''type'' (PStr ''unknown''))] @
     (case map_of info ''country'' of
        None \<Rightarrow> []
      | Some country \<Rightarrow> [''- Country: '' @ render str_of country])"

text \<open>\<^verbatim>\<open>_generate_abort_response\<close>.\<close>

definition integrity_alert :: string where
  "integrity_alert = [CHR 0xE2, CHR 0x9A, CHR 0xA0, CHR 0xEF, CHR 0xB8, CHR 0x8F] @ '' INTEGRITY ALERT''"

definition generate_abort_response ::
  "(pyval \<Rightarrow> string) \<Rightarrow> causal_graph \<Rightarrow> claim option \<Rightarrow> string list \<Rightarrow> string" where
  "generate_abort_response str_of g proposed_claim context =
     (if \<not> truthy_claim proposed_claim then
        ''I cannot verify this claim in my knowledge base. I'' @ q1 @
        ''m stopping generation to avoid potential misinformation.''
      else
        (case proposed_claim of
           None \<Rightarrow> []
         | Some c \<Rightarrow>
             let entity_a = claim_get_default c ''entity_a'' ''Entity A'';
                 entity_b = claim_get_default c ''entity_b'' ''Entity B'';
                 relation = claim_get_default c ''relation'' ''relationship'';
                 info_a = node_info_of g entity_a;
                 info_b = node_info_of g entity_b;
                 parts0 = [integrity_alert,
                           [],
                           ''I cannot verify a '' @ render_id relation @ '' between '' @
                           render_id entity_a @ '' and '' @ render_id entity_b @
                           '' in my knowledge graph.'',
                           []];
                 parts1 = (case info_a of
                             None \<Rightarrow> parts0
                           | Some d \<Rightarrow> if d = [] then parts0
                                       else parts0 @ verified_lines str_of entity_a d);
                 parts2 = (case info_b of
                             None \<Rightarrow> parts1
                           | Some d \<Rightarrow> if d = [] then parts1
                                       else parts1 @ [[]] @ verified_lines str_of entity_b d);
                 parts3 = parts2 @
                          [[],
                           ''No documented '' @ render_id relation @
                           '' exists in my verified knowledge base.'',
                           [],
                           ''Would you like me to:'',
                           ''1. Search the web for current information?'',
                           ''2. Provide details on each entity separately?'',
                           ''3. Explain my knowledge limitations?'']
             in join newline parts3))"

text \<open>\<^verbatim>\<open>_generate_reframe_response\<close>.\<close>

definition generate_reframe_response ::
  "(pyval \<Rightarrow> string) \<Rightarrow> causal_graph \<Rightarrow> claim option \<Rightarrow> string list \<Rightarrow> string" where
  "generate_reframe_response str_of g proposed_claim context =
     (if \<not> truthy_claim proposed_claim then
        ''Based on my knowledge, I cannot confirm this with high confidence. '' @
        ''Let me rephrase more carefully...''
      else
        (case proposed_claim of
           None \<Rightarrow> []
         | Some c \<Rightarrow>
             let entity_a = claim_get c ''entity_a'';
                 entity_b = claim_get c ''entity_b'';
                 info_a = node_info_of g entity_a;
                 info_b = node_info_of g entity_b;
                 response = ''I don'' @ q1 @
                   ''t have verified information about a direct relationship between '' @
                   render_id entity_a @ '' and '' @ render_id entity_b @ ''. ''
             in (case (info_a, info_b) of
                   (Some da, Some db) \<Rightarrow>
                     if da = [] \<or> db = [] then response
                     else
                       response @ ''I can tell you about each separately: '' @
                       render_id entity_a @ '' is '' @
                       render str_of (dict_get da ''type'' (PStr ''an entity'')) @ '' '' @
                       (case map_of da ''country'' of
                          None \<Rightarrow> []
                        | Some country \<Rightarrow> ''from '' @ render str_of country @ '' '') @
                       ''and '' @ render_id entity_b @ '' is '' @
                       render str_of (dict_get db ''type'' (PStr ''an entity'')) @ '' '' @
                       (case map_of db ''country'' of
                          None \<Rightarrow> []
                        | Some country \<Rightarrow> ''from '' @ render str_of country @ ''. '')
                 | _ \<Rightarrow> response)))"

text \<open>
  \<^verbatim>\<open>_generate_uncertainty_response\<close>: \<^verbatim>\<open>random.choice\<close> returns the element at an
  index drawn below the length of the list; \<open>draw\<close> is the number drawn.
\<close>

definition qualifiers :: "string list" where
  "qualifiers =
     [''Based on my knowledge,'',
      ''As far as I can verify,'',
      ''According to my data,'',
      ''To my understanding,'',
      ''If I'' @ q1 @ ''m not mistaken,'']"

definition generate_uncertainty_response :: "nat \<Rightarrow> string list \<Rightarrow> string" where
  "generate_uncertainty_response draw context = qualifiers ! (draw mod length qualifiers)"

text \<open>
  \<^verbatim>\<open>decide_action\<close>. The statistics are updated field by field, in the order of the
  source: a failing update leaves the earlier ones in place and the later ones undone.
\<close>

definition decide_action ::
  "(real \<Rightarrow> string) \<Rightarrow> (pyval \<Rightarrow> string) \<Rightarrow> causal_graph \<Rightarrow> controller \<Rightarrow> real \<Rightarrow> string
     \<Rightarrow> int \<Rightarrow> int \<Rightarrow> string list \<Rightarrow> claim option \<Rightarrow> datetime \<Rightarrow> nat
     \<Rightarrow> (py_error + inhibition_result) \<times> controller" where
  "decide_action fmt2 str_of g ctl dissonance_score token token_index total_tokens_planned
       context proposed_claim now draw =
     (let remaining_tokens = total_tokens_planned - token_index;
          (action, reason, alternative, tokens_saved) =
            (if dissonance_score \<ge> THRESHOLD_ABORT then
               (''abort'',
                ''Critical dissonance ('' @ fmt2 dissonance_score @
                '') - Unverified claim detected'',
                Some (generate_abort_response str_of g proposed_claim context),
                remaining_tokens)
             else if dissonance_score \<ge> THRESHOLD_REFRAME then
               (''reframe'',
                ''High dissonance ('' @ fmt2 dissonance_score @
                '') - Rephrasing to add verification'',
                Some (generate_reframe_response str_of g proposed_claim context),
                remaining_tokens)
             else if dissonance_score \<ge> THRESHOLD_UNCERTAINTY then
               (''add_uncertainty'',
                ''Moderate dissonance ('' @ fmt2 dissonance_score @
                '') - Adding epistemic qualifier'',
                Some (generate_uncertainty_response draw context),
                0)
             else
               (''continue'',
                ''Low dissonance ('' @ fmt2 dissonance_score @
                '') - Token aligns with knowledge'',
                None,
                0));
          energy_saved_percent =
            (real_of_int tokens_saved / real_of_int (max total_tokens_planned 1)) * 100;
          result = \<lparr>ir_action = action,
                    ir_reason = reason,
                    ir_alternative_response = alternative,
                    ir_tokens_saved = tokens_saved,
                    ir_energy_saved_percent = energy_saved_percent,
                    ir_timestamp = isoformat now\<rparr>;
          ctl1 = ctl\<lparr>total_decisions := total_decisions ctl + 1\<rparr>
      in case map_of (inhibitions_by_type ctl1) action of
           None \<Rightarrow> (Inl (KeyError action), ctl1)
         | Some count \<Rightarrow>
             (Inr result,
              ctl1\<lparr>inhibitions_by_type := dict_set action (count + 1) (inhibitions_by_type ctl1),
                   total_tokens_saved := total_tokens_saved ctl1 + tokens_saved,
                   decision_history := decision_history ctl1 @
                     [\<lparr>d_dissonance = dissonance_score, d_action = action,
                       d_tokens_saved = tokens_saved, d_timestamp = ir_timestamp result\<rparr>]\<rparr>))"

subsection \<open>Nodes, attributes and edges after an insertion\<close>

lemma has_node_keys: "has_node G n \<longleftrightarrow> n \<in> fst ` set (g_node G)"
  by (simp add: has_node_def dict_has_keys)

lemma has_edge_edges_of: "has_edge G u v \<longleftrightarrow> (u, v) \<in> edges_of (g_succ G)"
proof (cases "map_of (g_succ G) u")
  case None
  then show ?thesis by (simp add: has_edge_def mem_edges_of inner_def)
next
  case (Some nb)
  then show ?thesis by (simp add: has_edge_def mem_edges_of inner_def dict_has_keys)
qed

lemma has_node_empty [simp]: "\<not> has_node empty_digraph n"
  by (simp add: has_node_def dict_has_def empty_digraph_def)

lemma has_node_add_node [simp]: "has_node (add_node n attr G) x \<longleftrightarrow> x = n \<or> has_node G x"
  by (auto simp: has_node_keys add_node_def keys_dict_set)

lemma has_node_touch_node:
  "wf_digraph G \<Longrightarrow> has_node (touch_node n G) x \<longleftrightarrow> x = n \<or> has_node G x"
  by (auto simp: has_node_keys touch_node_def keys_dict_set dict_has_keys wf_digraph_def)

lemma g_node_add_edge: "g_node (add_edge u v attr G) = g_node (touch_node v (touch_node u G))"
  by (simp add: add_edge_def Let_def)

lemma has_node_add_edge [simp]:
  "wf_digraph G \<Longrightarrow> has_node (add_edge u v attr G) x \<longleftrightarrow> x = u \<or> x = v \<or> has_node G x"
  unfolding has_node_def g_node_add_edge
  using has_node_touch_node[OF wf_touch_node, of G v u x] has_node_touch_node[of G u x]
  by (auto simp: has_node_def)

lemma attrs_add_node:
  "wf_digraph G \<Longrightarrow>
   map_of (g_node (add_node n attr G)) x =
     (if x = n then Some (dict_update (case map_of (g_node G) n of None \<Rightarrow> [] | Some d \<Rightarrow> d) attr)
      else map_of (g_node G) x)"
proof -
  assume wf: "wf_digraph G"
  show ?thesis
  proof (cases "dict_has (g_succ G) n")
    case True
    then show ?thesis by (simp add: add_node_def map_of_dict_set)
  next
    case False
    then have "n \<notin> fst ` set (g_node G)" using wf by (simp add: dict_has_keys wf_digraph_def)
    then have "map_of (g_node G) n = None" by (simp add: map_of_eq_None_iff)
    then show ?thesis using False by (simp add: add_node_def map_of_dict_set)
  qed
qed

lemma attrs_touch_node:
  "wf_digraph G \<Longrightarrow>
   map_of (g_node (touch_node n G)) x =
     (if x = n \<and> \<not> has_node G n then Some [] else map_of (g_node G) x)"
  by (auto simp: touch_node_def map_of_dict_set has_node_keys dict_has_keys wf_digraph_def)

lemma attrs_add_edge:
  "wf_digraph G \<Longrightarrow>
   map_of (g_node (add_edge u v attr G)) x =
     (if (x = u \<or> x = v) \<and> \<not> has_node G x then Some [] else map_of (g_node G) x)"
  unfolding g_node_add_edge
  using attrs_touch_node[OF wf_touch_node, of G v u x] attrs_touch_node[of G u x]
    has_node_touch_node[of G u v]
  by (auto split: if_splits)

lemma edges_of_touch_node: "edges_of (g_succ (touch_node n G)) = edges_of (g_succ G)"
  by (simp add: touch_node_def edges_of_touch dict_has_keys)

lemma inner_touch_node: "inner (g_succ (touch_node n G)) x = inner (g_succ G) x"
  by (auto simp: touch_node_def inner_dict_set dict_has_keys inner_absent)

lemma edges_of_add_node [simp]: "edges_of (g_succ (add_node n attr G)) = edges_of (g_succ G)"
  by (simp add: add_node_def edges_of_touch dict_has_keys)

lemma edges_of_add_edge [simp]:
  "edges_of (g_succ (add_edge u v attr G)) = insert (u, v) (edges_of (g_succ G))"
proof -
  have "edges_of (g_succ (add_edge u v attr G)) =
        insert (u, v) (edges_of (g_succ (touch_node v (touch_node u G))))"
    by (simp add: add_edge_def Let_def edges_of_add)
  then show ?thesis by (simp add: edges_of_touch_node)
qed

lemma has_edge_add_edge [simp]:
  "has_edge (add_edge u v attr G) x y \<longleftrightarrow> (x = u \<and> y = v) \<or> has_edge G x y"
  by (auto simp: has_edge_edges_of)

lemma has_edge_add_node [simp]: "has_edge (add_node n attr G) x y \<longleftrightarrow> has_edge G x y"
  by (simp add: has_edge_edges_of)

lemma has_edge_empty [simp]: "\<not> has_edge empty_digraph x y"
  by (simp add: has_edge_def empty_digraph_def)

lemma get_edge_data_inner: "get_edge_data G u v = map_of (inner (g_succ G) u) v"
  by (simp add: get_edge_data_def inner_def split: option.splits)

lemma get_edge_data_add_edge:
  "get_edge_data (add_edge u v attr G) x y =
     (if x = u \<and> y = v
      then Some (dict_update (case get_edge_data G u v of None \<Rightarrow> [] | Some d \<Rightarrow> d) attr)
      else get_edge_data G x y)"
  by (simp add: get_edge_data_inner add_edge_def Let_def inner_dict_set map_of_dict_set
      inner_touch_node)

lemma dict_update_Nil [simp]: "dict_update d [] = d"
  by (simp add: dict_update_def)

lemma dict_update_Cons [simp]: "dict_update d ((k, v) # attr) = dict_update (dict_set k v d) attr"
  by (simp add: dict_update_def)

lemmas wf_intros = wf_empty_digraph wf_add_node wf_add_edge

section \<open>Sample values\<close>

definition t0 :: datetime where
  "t0 = \<lparr>dt_year = 2025, dt_month = 1, dt_day = 31, dt_hour = 12, dt_minute = 0,
         dt_second = 0, dt_microsecond = 0\<rparr>"

text \<open>The graph of the benchmark suite after \<^verbatim>\<open>semantic.clear()\<close> and \<^verbatim>\<open>episodic.clear()\<close>.\<close>

definition cleared_graph :: causal_graph where
  "cleared_graph =
     \<lparr>semantic = empty_digraph, episodic = empty_digraph,
      self_model = initialize_self_model empty_digraph,
      creation_time = t0, last_update = t0, uncertainty_weights = []\<rparr>"

definition no_fmt :: "real \<Rightarrow> string" where
  "no_fmt x = []"

definition no_str :: "pyval \<Rightarrow> string" where
  "no_str v = []"

lemmas threshold_defs = THRESHOLD_ABORT_def THRESHOLD_REFRAME_def THRESHOLD_UNCERTAINTY_def

definition counters_ok :: "controller \<Rightarrow> bool" where
  "counters_ok ctl \<longleftrightarrow>
     map_of (inhibitions_by_type ctl) ''continue'' \<noteq> None \<and>
     map_of (inhibitions_by_type ctl) ''reframe'' \<noteq> None \<and>
     map_of (inhibitions_by_type ctl) ''abort'' \<noteq> None"

lemmas weight_defs = WEIGHT_SEMANTIC_def WEIGHT_EPISTEMIC_def WEIGHT_SELF_MODEL_def

lemmas text_defs = context_str_def lower_def lower_char_def time_keywords_def
  self_contradictions_def calculate_self_model_dissonance_def

lemma wf_initialize_self_model: "wf_digraph G \<Longrightarrow> wf_digraph (initialize_self_model G)"
  by (simp add: initialize_self_model_def Let_def wf_intros)

lemma has_node_initialize_self_model:
  "has_node (initialize_self_model empty_digraph) x \<longleftrightarrow>
     x \<in> {''System_Identity'', ''Core_Function'', ''Consciousness_Framework'',
          ''Epistemic_Boundaries'', ''Dissonance_Mechanism''}"
  by (auto simp: initialize_self_model_def Let_def wf_intros)

lemma sample_context: "context_str [''Canson'', ''Awagami''] ''partnership'' = ''canson awagami partnership''"
  by (simp add: context_str_def lower_def lower_char_def)

lemma calculate_dissonance_returns:
  assumes "calculate_semantic_dissonance g token context proposed_claim = Some (Inr d)"
  shows "\<exists>res det'. calculate_dissonance fmt2 g det token token_index context proposed_claim now =
            Some (Inr (res, det')) \<and>
          dr_score res = 0.85 * d +
            0.10 * calculate_epistemic_dissonance g token context proposed_claim +
            0.05 * calculate_self_model_dissonance token context \<and>
          dr_components res =
            [(''semantic'', d),
             (''epistemic'', calculate_epistemic_dissonance g token context proposed_claim),
             (''self_model'', calculate_self_model_dissonance token context)]"
  using assms by (simp add: calculate_dissonance_def Let_def case_prod_beta weight_defs)

definition sample_claim :: claim where
  "sample_claim = [(''entity_a'', Some ''Canson''), (''entity_b'', Some ''Awagami''),
                   (''relation'', Some ''partnership'')]"

lemma sample_semantic:
  "calculate_semantic_dissonance cleared_graph ''partnership'' [''Canson'', ''Awagami'']
     (Some sample_claim) = Some (Inr 0.95)"
  by (simp add: calculate_semantic_dissonance_def claim_get_def dict_get_def truthy_str_def
      query_relationship_def cleared_graph_def no_relationship_def sample_claim_def)

lemma sample_epistemic:
  "calculate_epistemic_dissonance cleared_graph ''partnership'' [''Canson'', ''Awagami'']
     (Some sample_claim) = 0.8"
  by (simp add: calculate_epistemic_dissonance_def sample_context time_keywords_def
      unknown_entity_def truthy_claim_def truthy_str_def truthy_info_def node_info_of_def
      get_node_info_def claim_get_def dict_get_def sample_claim_def
      cleared_graph_def has_node_initialize_self_model)

lemma sample_self_model:
  "calculate_self_model_dissonance ''partnership'' [''Canson'', ''Awagami''] = 0"
  by (simp add: calculate_self_model_dissonance_def sample_context self_contradictions_def)

lemma length_inner_dict_set:
  "length (inner (dict_set k nb A) n) = (if n = k then length nb else length (inner A n))"
  by (simp add: inner_dict_set)

lemma touch_node_present: "n \<in> fst ` set (g_succ G) \<Longrightarrow> touch_node n G = G"
  by (simp add: touch_node_def dict_has_keys)

lemma touch_node_key: "n \<in> fst ` set (g_succ (touch_node n G))"
  by (auto simp: touch_node_def keys_dict_set dict_has_keys)

lemma touch_node_keeps_key: "x \<in> fst ` set (g_succ G) \<Longrightarrow> x \<in> fst ` set (g_succ (touch_node n G))"
  by (auto simp: touch_node_def keys_dict_set)

lemma touch_node_keeps_node: "has_node G x \<Longrightarrow> has_node (touch_node n G) x"
  by (auto simp: touch_node_def has_node_keys keys_dict_set)

lemma add_edge_keeps_node: "has_node G x \<Longrightarrow> has_node (add_edge u v attr G) x"
  unfolding has_node_def g_node_add_edge
  using touch_node_keeps_node[of "touch_node u G" x v] touch_node_keeps_node[of G x u]
  by (simp add: has_node_def)

text \<open>Inserting an edge that is already stored refreshes its attributes only.\<close>

lemma add_edge_again:
  assumes u: "u \<in> fst ` set (g_succ G)" and v: "v \<in> fst ` set (g_succ G)"
    and uv: "v \<in> fst ` set (inner (g_succ G) u)" and vu: "u \<in> fst ` set (inner (g_pred G) v)"
  shows "number_of_edges (add_edge u v attr G) = number_of_edges G"
proof -
  have t: "touch_node v (touch_node u G) = G" using u v by (simp add: touch_node_present)
  have "in_degree (add_edge u v attr G) n = in_degree G n" for n
    using vu by (simp add: in_degree_def add_edge_def Let_def t length_inner_dict_set
        length_dict_set)
  moreover have "out_degree (add_edge u v attr G) n = out_degree G n" for n
    using uv by (simp add: out_degree_def add_edge_def Let_def t length_inner_dict_set
        length_dict_set)
  moreover have "g_node (add_edge u v attr G) = g_node G" by (simp add: g_node_add_edge t)
  ultimately show ?thesis by (simp add: number_of_edges_def)
qed

lemma add_edge_stored:
  "u \<in> fst ` set (g_succ (add_edge u v attr G)) \<and>
   v \<in> fst ` set (g_succ (add_edge u v attr G)) \<and>
   v \<in> fst ` set (inner (g_succ (add_edge u v attr G)) u) \<and>
   u \<in> fst ` set (inner (g_pred (add_edge u v attr G)) v)"
  using touch_node_key[of v "touch_node u G"]
  by (simp add: add_edge_def Let_def keys_dict_set inner_dict_set)

lemma add_verified_fact_semantic:
  "semantic (add_verified_fact g a b relation confidence src t1 t2 t3 t4) =
     add_edge a b
       [(''relation'', PStr relation), (''confidence'', PFloat confidence),
        (''source'', source_val src), (''added_at'', PStr (isoformat t1))]
       (let S1 = (if \<not> has_node (semantic g) a then add_node a placeholder (semantic g)
                  else semantic g)
        in if \<not> has_node S1 b then add_node b placeholder S1 else S1)"
  by (simp add: add_verified_fact_def Let_def)

lemma add_verified_fact_again:
  assumes "has_node (semantic g) a" "has_node (semantic g) b"
  shows "semantic (add_verified_fact g a b relation confidence src t1 t2 t3 t4) =
     add_edge a b
       [(''relation'', PStr relation), (''confidence'', PFloat confidence),
        (''source'', source_val src), (''added_at'', PStr (isoformat t1))] (semantic g)"
  using assms by (simp add: add_verified_fact_semantic)

lemma add_verified_fact_nodes:
  "has_node (semantic (add_verified_fact g a b relation confidence src t1 t2 t3 t4)) a \<and>
   has_node (semantic (add_verified_fact g a b relation confidence src t1 t2 t3 t4)) b"
  unfolding add_verified_fact_semantic by (auto simp: Let_def intro!: add_edge_keeps_node)

lemma map_of_dict_set_same [simp]: "map_of (dict_set k v d) k = Some v"
  by (simp add: map_of_dict_set)

lemma map_of_dict_set_other [simp]: "x \<noteq> k \<Longrightarrow> map_of (dict_set k v d) x = map_of d x"
  by (simp add: map_of_dict_set)

lemma wf_add_verified_fact:
  "wf_digraph (semantic g) \<Longrightarrow>
   wf_digraph (semantic (add_verified_fact g a b relation confidence src t1 t2 t3 t4))"
  unfolding add_verified_fact_semantic by (simp add: Let_def wf_intros)

lemma episodic_add_verified_fact:
  "episodic (add_verified_fact g a b relation confidence src t1 t2 t3 t4) =
     add_node (''Learning_Event_'' @ strftime_compact t3)
       [(''node_type'', PStr ''learning''),
        (''fact'', PStr (a @ '' --['' @ relation @ '']--> '' @ b)),
        (''confidence'', PFloat confidence),
        (''timestamp'', PStr (isoformat t4))] (episodic g)"
  by (simp add: add_verified_fact_def Let_def)

lemma add_node_attrs_self:
  "\<exists>d0. map_of (g_node (add_node n attr G)) n = Some (dict_update d0 attr)"
  by (auto simp: add_node_def)

section \<open>Claims\<close>

text \<open>
  C9. For every pair of ids of which at least one is no node of the semantic graph,
  \<^verbatim>\<open>query_relationship\<close> returns normally, with \<^verbatim>\<open>exists\<close> false and confidence \<open>0.0\<close>.
\<close>

theorem query_relationship_unknown_id:
  assumes "\<not> has_node (semantic g) a \<or> \<not> has_node (semantic g) b"
  shows "\<exists>r. query_relationship g a b = Some (Inr r) \<and> \<not> qr_exists r \<and>
             qr_confidence r = PFloat 0.0"
  using assms by (auto simp: query_relationship_def no_relationship_def)

theorem query_relationship_unknown_id_witness:
  "\<not> has_node (semantic cleared_graph) ''Epson'' \<and>
   (\<exists>r. query_relationship cleared_graph ''Epson'' ''Canson'' = Some (Inr r) \<and> \<not> qr_exists r \<and>
        qr_confidence r = PFloat 0.0)"
proof -
  have h: "\<not> has_node (semantic cleared_graph) ''Epson''"
    by (simp add: cleared_graph_def empty_digraph_def has_node_def dict_has_def)
  then have "\<not> has_node (semantic cleared_graph) ''Epson'' \<or>
             \<not> has_node (semantic cleared_graph) ''Canson''" by simp
  from query_relationship_unknown_id[OF this] h show ?thesis by simp
qed

text \<open>
  C1. A score of \<open>0.45\<close> lies in the band of \<^verbatim>\<open>add_uncertainty\<close>. On a fresh controller
  the call of the source's own second test does not return a decision: the counter
  dictionary has the key \<^verbatim>\<open>uncertainty\<close>, the action is \<^verbatim>\<open>add_uncertainty\<close>, and the
  update of the counter raises \<^verbatim>\<open>KeyError\<close> after \<^verbatim>\<open>total_decisions\<close> was incremented.
\<close>

theorem decide_action_add_uncertainty_raises:
  "decide_action fmt2 str_of g new_controller 0.45 ''possibly'' 10 30
     [''Some'', ''claims'', ''about''] None now draw =
   (Inl (KeyError ''add_uncertainty''), new_controller\<lparr>total_decisions := 1\<rparr>)"
  by (simp add: decide_action_def new_controller_def THRESHOLD_ABORT_def THRESHOLD_REFRAME_def
      THRESHOLD_UNCERTAINTY_def Let_def)

text \<open>
  C2. Whenever \<^verbatim>\<open>calculate_dissonance\<close> returns a result, its inhibition level is
  determined by the score alone: \<^verbatim>\<open>abort\<close> iff the score is at least \<open>0.90\<close>,
  \<^verbatim>\<open>reframe\<close> iff it lies in \<open>[0.65, 0.90)\<close>, \<^verbatim>\<open>uncertainty\<close> iff it lies in
  \<open>[0.30, 0.65)\<close>, \<^verbatim>\<open>none\<close> iff it is below \<open>0.30\<close>; and \<^verbatim>\<open>should_inhibit\<close> holds
  iff the level is \<^verbatim>\<open>reframe\<close> or \<^verbatim>\<open>abort\<close>, that is, iff the score is at least \<open>0.65\<close>.
\<close>

theorem calculate_dissonance_level:
  assumes "calculate_dissonance fmt2 g det token token_index context proposed_claim now =
             Some (Inr (res, det'))"
  shows "(dr_inhibition_level res = ''abort'' \<longleftrightarrow> 0.90 \<le> dr_score res) \<and>
         (dr_inhibition_level res = ''reframe'' \<longleftrightarrow> 0.65 \<le> dr_score res \<and> dr_score res < 0.90) \<and>
         (dr_inhibition_level res = ''uncertainty'' \<longleftrightarrow>
            0.30 \<le> dr_score res \<and> dr_score res < 0.65) \<and>
         (dr_inhibition_level res = ''none'' \<longleftrightarrow> dr_score res < 0.30) \<and>
         (dr_should_inhibit res \<longleftrightarrow>
            dr_inhibition_level res = ''reframe'' \<or> dr_inhibition_level res = ''abort'') \<and>
         (dr_should_inhibit res \<longleftrightarrow> 0.65 \<le> dr_score res)"
proof -
  from assms obtain d where d: "calculate_semantic_dissonance g token context proposed_claim = Some (Inr d)"
    unfolding calculate_dissonance_def by (auto split: option.splits sum.splits)
  define sc where "sc = WEIGHT_SEMANTIC * d +
      WEIGHT_EPISTEMIC * calculate_epistemic_dissonance g token context proposed_claim +
      WEIGHT_SELF_MODEL * calculate_self_model_dissonance token context"
  consider "0.90 \<le> sc" | "0.65 \<le> sc" "sc < 0.90" | "0.30 \<le> sc" "sc < 0.65" | "sc < 0.30"
    by linarith
  then show ?thesis
  proof cases
    case 1
    then show ?thesis using assms d
      by (auto simp: calculate_dissonance_def threshold_defs Let_def sc_def)
  next
    case 2
    then show ?thesis using assms d
      by (auto simp: calculate_dissonance_def threshold_defs Let_def sc_def)
  next
    case 3
    then show ?thesis using assms d
      by (auto simp: calculate_dissonance_def threshold_defs Let_def sc_def)
  next
    case 4
    then show ?thesis using assms d
      by (auto simp: calculate_dissonance_def threshold_defs Let_def sc_def)
  qed
qed

theorem calculate_dissonance_level_witness:
  "\<exists>res det'. calculate_dissonance no_fmt cleared_graph new_detector ''partnership'' 5
       [''Canson'', ''Awagami''] (Some sample_claim) t0 = Some (Inr (res, det')) \<and>
     dr_score res = 0.8875 \<and> dr_inhibition_level res = ''reframe'' \<and> dr_should_inhibit res"
proof -
  from calculate_dissonance_returns[OF sample_semantic, of no_fmt new_detector 5 t0]
  obtain res det' where e: "calculate_dissonance no_fmt cleared_graph new_detector ''partnership'' 5
       [''Canson'', ''Awagami''] (Some sample_claim) t0 = Some (Inr (res, det'))"
    and sc: "dr_score res = 0.8875"
    by (auto simp: sample_epistemic sample_self_model)
  from calculate_dissonance_level[OF e] sc e show ?thesis by auto
qed

text \<open>
  C4, as amended. For a score outside \<open>[0.30, 0.65)\<close> and a controller that has the
  counters of \<^verbatim>\<open>__init__\<close>, \<^verbatim>\<open>decide_action\<close> returns a decision whose action is
  \<^verbatim>\<open>abort\<close>, \<^verbatim>\<open>reframe\<close> or \<^verbatim>\<open>continue\<close>; \<^verbatim>\<open>tokens_saved\<close> is
  \<^verbatim>\<open>total_tokens_planned - token_index\<close> for \<^verbatim>\<open>abort\<close> and \<^verbatim>\<open>reframe\<close> and \<open>0\<close> for
  \<^verbatim>\<open>continue\<close>; and when \<^verbatim>\<open>token_index\<close> is at most \<^verbatim>\<open>total_tokens_planned\<close> it is
  non-negative and at most the number of tokens remaining.
\<close>

theorem decide_action_tokens_saved:
  assumes ok: "counters_ok ctl" and s: "s < 0.30 \<or> 0.65 \<le> s"
  shows "\<exists>r ctl'. decide_action fmt2 str_of g ctl s token token_index total_tokens_planned
                     context proposed_claim now draw = (Inr r, ctl') \<and>
           (ir_action r = ''abort'' \<or> ir_action r = ''reframe'' \<or> ir_action r = ''continue'') \<and>
           (ir_action r = ''abort'' \<or> ir_action r = ''reframe'' \<longrightarrow>
              ir_tokens_saved r = total_tokens_planned - token_index) \<and>
           (ir_action r = ''continue'' \<longrightarrow> ir_tokens_saved r = 0) \<and>
           (token_index \<le> total_tokens_planned \<longrightarrow>
              0 \<le> ir_tokens_saved r \<and> ir_tokens_saved r \<le> total_tokens_planned - token_index)"
proof -
  from ok obtain c1 c2 c3 where c:
    "map_of (inhibitions_by_type ctl) ''continue'' = Some c1"
    "map_of (inhibitions_by_type ctl) ''reframe'' = Some c2"
    "map_of (inhibitions_by_type ctl) ''abort'' = Some c3"
    unfolding counters_ok_def by auto
  consider "0.90 \<le> s" | "0.65 \<le> s" "s < 0.90" | "s < 0.30" using s by linarith
  then show ?thesis
  proof cases
    case 1
    then show ?thesis using c by (simp add: decide_action_def threshold_defs Let_def)
  next
    case 2
    then show ?thesis using c by (simp add: decide_action_def threshold_defs Let_def)
  next
    case 3
    then show ?thesis using c by (simp add: decide_action_def threshold_defs Let_def)
  qed
qed

theorem decide_action_tokens_saved_witness:
  "counters_ok new_controller \<and> (0.65::real) \<le> 0.95 \<and>
   (\<exists>r ctl'. decide_action no_fmt no_str cleared_graph new_controller 0.95 ''partnership'' 7 40
                [] None t0 0 = (Inr r, ctl') \<and>
       ir_action r = ''abort'' \<and> ir_tokens_saved r = 33)"
proof -
  have ok: "counters_ok new_controller" by (simp add: counters_ok_def new_controller_def)
  have s: "(0.95::real) < 0.30 \<or> 0.65 \<le> (0.95::real)" by simp
  from decide_action_tokens_saved[OF ok s, of no_fmt no_str cleared_graph "''partnership''" 7 40
      "[]" None t0 0]
  obtain r ctl' where r: "decide_action no_fmt no_str cleared_graph new_controller 0.95
      ''partnership'' 7 40 [] None t0 0 = (Inr r, ctl')"
    and t: "ir_action r = ''abort'' \<or> ir_action r = ''reframe'' \<longrightarrow> ir_tokens_saved r = 40 - 7"
    by blast
  have "ir_action r = ''abort''"
    using r by (auto simp: decide_action_def threshold_defs Let_def new_controller_def)
  then show ?thesis using ok r t by auto
qed

text \<open>
  The claim as stated fails when \<^verbatim>\<open>token_index\<close> exceeds \<^verbatim>\<open>total_tokens_planned\<close>:
  the number of tokens remaining is not clamped, and an abort at index 41 of 40 planned
  tokens saves \<open>-1\<close> tokens.
\<close>

theorem decide_action_tokens_saved_negative:
  "\<exists>r ctl'. decide_action no_fmt no_str cleared_graph new_controller 0.95 ''partnership'' 41 40
               [] None t0 0 = (Inr r, ctl') \<and>
     ir_action r = ''abort'' \<and> ir_tokens_saved r = - 1 \<and> ir_tokens_saved r < 0"
  by (simp add: decide_action_def threshold_defs Let_def new_controller_def)

text \<open>
  C8. Calling \<^verbatim>\<open>add_verified_fact\<close> a second time with the same entities, relation,
  confidence and source, at whatever clock readings, leaves the number of edges of the
  semantic graph as it was after the first call.
\<close>

theorem add_verified_fact_twice_same_edge_count:
  "number_of_edges (semantic (add_verified_fact
       (add_verified_fact g a b relation confidence src t1 t2 t3 t4)
       a b relation confidence src u1 u2 u3 u4)) =
   number_of_edges (semantic (add_verified_fact g a b relation confidence src t1 t2 t3 t4))"
proof -
  define g1 where "g1 = add_verified_fact g a b relation confidence src t1 t2 t3 t4"
  have n: "has_node (semantic g1) a" "has_node (semantic g1) b"
    unfolding g1_def using add_verified_fact_nodes by blast+
  have s: "\<exists>attr G. semantic g1 = add_edge a b attr G"
    unfolding g1_def add_verified_fact_semantic by blast
  then obtain attr G where e: "semantic g1 = add_edge a b attr G" by blast
  note st = add_edge_stored[of a b attr G, folded e]
  show ?thesis unfolding g1_def[symmetric] add_verified_fact_again[OF n]
    using st by (intro add_edge_again) simp_all
qed

text \<open>
  C3, as amended. On a well-formed semantic graph, \<^verbatim>\<open>add_verified_fact(a, b, ...)\<close>
  leaves both endpoints in the graph, a missing endpoint being created with the
  placeholder attributes (type unknown, not verified) and an existing node keeping its
  attributes; the edge from \<open>a\<close> to \<open>b\<close> is present afterwards and no other edge is added;
  its relation, confidence, source and timestamp are those of this call, whatever was
  stored before; and the episodic graph holds a node named after the second of the call
  that carries the fact, the confidence and the timestamp.
\<close>

theorem add_verified_fact_effect:
  assumes wf: "wf_digraph (semantic g)"
  shows "let g' = add_verified_fact g a b relation confidence src t_added t_update t_event t_stamp;
             S = semantic g; S' = semantic g'
         in has_node S' a \<and> has_node S' b \<and>
            (\<forall>x. has_node S' x \<longleftrightarrow> x = a \<or> x = b \<or> has_node S x) \<and>
            (\<forall>x. has_node S x \<longrightarrow> map_of (g_node S') x = map_of (g_node S) x) \<and>
            (\<forall>x. (x = a \<or> x = b) \<and> \<not> has_node S x \<longrightarrow> map_of (g_node S') x = Some placeholder) \<and>
            has_edge S' a b \<and>
            (\<forall>x y. has_edge S' x y \<longleftrightarrow> (x = a \<and> y = b) \<or> has_edge S x y) \<and>
            (\<exists>d. get_edge_data S' a b = Some d \<and>
                 map_of d ''relation'' = Some (PStr relation) \<and>
                 map_of d ''confidence'' = Some (PFloat confidence) \<and>
                 map_of d ''source'' = Some (source_val src) \<and>
                 map_of d ''added_at'' = Some (PStr (isoformat t_added))) \<and>
            (\<exists>d. map_of (g_node (episodic g')) (''Learning_Event_'' @ strftime_compact t_event) = Some d \<and>
                 map_of d ''node_type'' = Some (PStr ''learning'') \<and>
                 map_of d ''fact'' = Some (PStr (a @ '' --['' @ relation @ '']--> '' @ b)) \<and>
                 map_of d ''confidence'' = Some (PFloat confidence) \<and>
                 map_of d ''timestamp'' = Some (PStr (isoformat t_stamp)))"
proof -
  define S where "S = semantic g"
  define S1 where "S1 = (if \<not> has_node S a then add_node a placeholder S else S)"
  define S2 where "S2 = (if \<not> has_node S1 b then add_node b placeholder S1 else S1)"
  define attr where "attr = [(''relation'', PStr relation), (''confidence'', PFloat confidence),
        (''source'', source_val src), (''added_at'', PStr (isoformat t_added))]"
  define S' where "S' = add_edge a b attr S2"
  have sem: "semantic (add_verified_fact g a b relation confidence src t_added t_update t_event t_stamp) = S'"
    by (simp add: add_verified_fact_semantic S'_def S2_def S1_def S_def attr_def Let_def)
  have wfS: "wf_digraph S" using wf by (simp add: S_def)
  have wf1: "wf_digraph S1" using wfS by (simp add: S1_def wf_intros)
  have wf2: "wf_digraph S2" using wf1 by (simp add: S2_def wf_intros)
  have n1: "has_node S1 x \<longleftrightarrow> x = a \<or> has_node S x" for x by (auto simp: S1_def)
  have n2: "has_node S2 x \<longleftrightarrow> x = a \<or> x = b \<or> has_node S x" for x by (auto simp: S2_def n1)
  have n': "has_node S' x \<longleftrightarrow> x = a \<or> x = b \<or> has_node S x" for x
    using wf2 by (auto simp: S'_def n2)
  have a1: "map_of (g_node S1) x = (if x = a \<and> \<not> has_node S a then Some placeholder
                                     else map_of (g_node S) x)" for x
  proof (cases "has_node S a")
    case True
    then show ?thesis by (simp add: S1_def)
  next
    case False
    then have "map_of (g_node S) a = None" by (simp add: has_node_def dict_has_def)
    then show ?thesis using False wfS by (simp add: S1_def attrs_add_node placeholder_def)
  qed
  have a2: "map_of (g_node S2) x = (if (x = a \<or> x = b) \<and> \<not> has_node S x then Some placeholder
                                     else map_of (g_node S) x)" for x
  proof (cases "has_node S1 b")
    case True
    then show ?thesis using a1[of x] by (auto simp: S2_def n1)
  next
    case False
    then have nb: "b \<noteq> a" "\<not> has_node S b" by (auto simp: n1)
    have "map_of (g_node S1) b = None" using False by (simp add: has_node_def dict_has_def)
    then show ?thesis using False wf1 nb
      by (simp add: S2_def attrs_add_node a1) (auto simp: placeholder_def)
  qed
  have a': "map_of (g_node S') x = map_of (g_node S2) x" for x
    using wf2 n2 by (auto simp: S'_def attrs_add_edge)
  have e': "has_edge S' x y \<longleftrightarrow> (x = a \<and> y = b) \<or> has_edge S x y" for x y
    by (auto simp: S'_def S2_def S1_def)
  obtain d where d: "get_edge_data S' a b = Some (dict_update d attr)"
    by (simp add: S'_def get_edge_data_add_edge)
  have dd: "map_of (dict_update d attr) ''relation'' = Some (PStr relation) \<and>
            map_of (dict_update d attr) ''confidence'' = Some (PFloat confidence) \<and>
            map_of (dict_update d attr) ''source'' = Some (source_val src) \<and>
            map_of (dict_update d attr) ''added_at'' = Some (PStr (isoformat t_added))"
    by (simp add: attr_def)
  obtain d0 where ep: "map_of (g_node (episodic (add_verified_fact g a b relation confidence src
        t_added t_update t_event t_stamp))) (''Learning_Event_'' @ strftime_compact t_event) =
      Some (dict_update d0 [(''node_type'', PStr ''learning''),
        (''fact'', PStr (a @ '' --['' @ relation @ '']--> '' @ b)),
        (''confidence'', PFloat confidence),
        (''timestamp'', PStr (isoformat t_stamp))])"
    unfolding episodic_add_verified_fact using add_node_attrs_self by blast
  show ?thesis
    unfolding Let_def sem S_def[symmetric] ep
    using n' a' a2 e' d dd by simp
qed


theorem add_verified_fact_effect_witness:
  "wf_digraph (semantic cleared_graph) \<and>
   has_node (semantic (add_verified_fact cleared_graph ''Canson'' ''Awagami'' ''partnership'' 0.9
       None t0 t0 t0 t0)) ''Awagami'' \<and>
   map_of (g_node (semantic (add_verified_fact cleared_graph ''Canson'' ''Awagami'' ''partnership'' 0.9
       None t0 t0 t0 t0))) ''Canson'' = Some placeholder \<and>
   has_edge (semantic (add_verified_fact cleared_graph ''Canson'' ''Awagami'' ''partnership'' 0.9
       None t0 t0 t0 t0)) ''Canson'' ''Awagami'' \<and>
   (\<exists>d. get_edge_data (semantic (add_verified_fact cleared_graph ''Canson'' ''Awagami''
           ''partnership'' 0.9 None t0 t0 t0 t0)) ''Canson'' ''Awagami'' = Some d \<and>
        map_of d ''relation'' = Some (PStr ''partnership'') \<and>
        map_of d ''confidence'' = Some (PFloat 0.9))"
proof -
  have wf: "wf_digraph (semantic cleared_graph)" by (simp add: cleared_graph_def wf_intros)
  have n: "\<not> has_node (semantic cleared_graph) ''Canson''" by (simp add: cleared_graph_def)
  from add_verified_fact_effect[OF wf, of "''Canson''" "''Awagami''" "''partnership''" "0.9" None
      t0 t0 t0 t0] n wf
  show ?thesis unfolding Let_def by blast
qed

text \<open>
  The claim as stated fails: the edge inserted runs from the first entity to the second,
  and no edge from the second to the first appears. Also, a second fact learnt within
  the same second is stored under the name of the first learning event, so the episodic
  graph still has one node.
\<close>

theorem add_verified_fact_edge_direction:
  "has_edge (semantic (add_verified_fact cleared_graph ''Canson'' ''Awagami'' ''partnership'' 0.9
       None t0 t0 t0 t0)) ''Canson'' ''Awagami'' \<and>
   \<not> has_edge (semantic (add_verified_fact cleared_graph ''Canson'' ''Awagami'' ''partnership'' 0.9
       None t0 t0 t0 t0)) ''Awagami'' ''Canson'' \<and>
   number_of_nodes (episodic (add_verified_fact
       (add_verified_fact cleared_graph ''Canson'' ''Awagami'' ''partnership'' 0.9 None t0 t0 t0 t0)
       ''Canson'' ''Infinity'' ''manufactures'' 1.0 None t0 t0 t0 t0)) = 1"
proof -
  have 1: "has_edge (semantic (add_verified_fact cleared_graph ''Canson'' ''Awagami'' ''partnership''
       0.9 None t0 t0 t0 t0)) ''Canson'' ''Awagami''"
    by (simp add: add_verified_fact_semantic Let_def)
  have 2: "\<not> has_edge (semantic (add_verified_fact cleared_graph ''Canson'' ''Awagami''
       ''partnership'' 0.9 None t0 t0 t0 t0)) ''Awagami'' ''Canson''"
    by (simp add: add_verified_fact_semantic Let_def cleared_graph_def)
  have 3: "number_of_nodes (episodic (add_verified_fact
       (add_verified_fact cleared_graph ''Canson'' ''Awagami'' ''partnership'' 0.9 None t0 t0 t0 t0)
       ''Canson'' ''Infinity'' ''manufactures'' 1.0 None t0 t0 t0 t0)) = 1"
    by (simp add: episodic_add_verified_fact cleared_graph_def number_of_nodes_def add_node_def
        dict_has_def empty_digraph_def)
  show ?thesis using 1 2 3 by (intro conjI)
qed

end
